theory Spec2Isabelle
  imports Complex_Main
begin

section \<open>Data model\<close>

text \<open>
  The model follows \<^verbatim>\<open>src/rCholWishart.c\<close>. A C \<^verbatim>\<open>double\<close> is read as a real number:
  the properties below are about control flow, buffer indices, the order of the random
  draws and entries that are exactly zero, none of which depends on rounding. C
  \<^verbatim>\<open>int\<close>s are unbounded here; the extents of an R \<^verbatim>\<open>dim\<close> attribute are never
  negative, so they are natural numbers, and the sample count \<^verbatim>\<open>asInteger(ns)\<close> is an
  integer that may be zero or negative.
\<close>

type_synonym double = real
type_synonym addr = nat

datatype sexptype = NILSXP | LGLSXP | INTSXP | REALSXP | CPLXSXP | STRSXP | VECSXP

text \<open>
  An R object as far as the code looks at it: its type tag, its \<^verbatim>\<open>dim\<close> attribute
  (absent for a plain vector) and the address of its numeric payload, \<^verbatim>\<open>REAL(x)\<close>.
\<close>

record sexp =
  sxtype :: sexptype
  dim_attr :: "nat list option"
  payload :: addr

text \<open>
  The three errors the file raises with \<^verbatim>\<open>error(...)\<close>, named as the specification
  names them, and the two errors that R raises inside routines the file calls:
  \<open>IntegerOfNull\<close> is the error of R's \<^verbatim>\<open>INTEGER()\<close> applied to \<^verbatim>\<open>R_NilValue\<close>
  (the file does not define \<^verbatim>\<open>USE_RINTERNALS\<close>, so \<^verbatim>\<open>INTEGER\<close> is the function of
  \<^verbatim>\<open>memory.c\<close>, which tests the type of its argument), and \<open>LapackArgument\<close> is the
  error of R's \<^verbatim>\<open>xerbla\<close>, which LAPACK's \<^verbatim>\<open>DPOTRF\<close> calls when its fourth argument,
  the leading dimension, is illegal. \<open>OutOfBounds\<close> is not an R error: it marks a read
  or write outside a buffer, where the C code has no defined behaviour.
\<close>

datatype error =
    InvalidShape
  | NotPositiveDefinite
  | InvalidDegreesOfFreedom
  | IntegerOfNull
  | LapackArgument
  | OutOfBounds

fun message :: "error \<Rightarrow> string" where
  "message InvalidShape = CHR 0x27 # ''scal'' @ CHR 0x27 # '' must be a square, real matrix''"
| "message NotPositiveDefinite = CHR 0x27 # ''scal'' @ CHR 0x27 # '' matrix is not positive-definite''"
| "message InvalidDegreesOfFreedom = ''inconsistent degrees of freedom and dimension''"
| "message IntegerOfNull =
     ''INTEGER() can only be applied to a '' @ CHR 0x27 # ''integer'' @ CHR 0x27 #
     '', not a '' @ CHR 0x27 # ''NULL'' @ [CHR 0x27]"
| "message LapackArgument =
     ''BLAS/LAPACK routine '' @ CHR 0x27 # ''DPOTRF'' @ CHR 0x27 # '' gave error code -4''"
| "message OutOfBounds = ''''"

text \<open>
  Every effect of a call on its environment is logged, in order: allocations, the copy of
  the scale matrix, the calls of the linear-algebra routines (with the addresses of the
  buffers handed to them), the opening and closing of the random-number bracket and
  every draw (a chi-squared draw with the shape it asked for).
\<close>

datatype event =
    Alloc3DArray nat nat nat
  | Calloc nat
  | Free addr
  | Memcpy addr addr nat
  | Dpotrf addr
  | Dtrmm addr addr
  | Dtrtri addr
  | GetRNGstate
  | PutRNGstate
  | Rchisq double
  | Norm_rand

text \<open>
  The store maps the address of a live buffer to its contents; \<open>brk\<close> is the next
  address the allocator hands out. \<open>rng\<close> is the state of the shared random stream.
\<close>

record 'r world =
  mem :: "addr \<Rightarrow> double list option"
  brk :: addr
  rng :: 'r
  trace :: "event list"

text \<open>
  The routines the file calls and does not define: the two variate generators of
  \<^verbatim>\<open>Rmath.h\<close> (each takes the stream state and returns the variate and the next
  state), and LAPACK's \<^verbatim>\<open>dpotrf\<close>, BLAS's \<^verbatim>\<open>dtrmm\<close> and LAPACK's \<^verbatim>\<open>dtrtri\<close> with
  the flags the file passes (\<^verbatim>\<open>"U"\<close>; \<^verbatim>\<open>"R", "U", "N", "N"\<close>; \<^verbatim>\<open>"U", "N"\<close>). They are
  parameters of the model. The arguments are those of the calls: \<open>dpotrf n a lda\<close>,
  \<open>dtrmm m n alpha a lda b ldb\<close>, \<open>dtrtri n a lda\<close>; the two LAPACK routines return
  \<^verbatim>\<open>info\<close> with the new contents. A parameter stands for the computation of a routine
  on arguments that pass the routine's own argument test; the test itself, which does
  not return when it fails, is part of the call below. \<open>junk\<close> is what freshly
  allocated, uninitialised memory holds.
\<close>

record 'r prims =
  rchisq :: "double \<Rightarrow> 'r \<Rightarrow> double \<times> 'r"
  norm_rand :: "'r \<Rightarrow> double \<times> 'r"
  dpotrf :: "nat \<Rightarrow> double list \<Rightarrow> nat \<Rightarrow> int \<times> double list"
  dtrmm :: "nat \<Rightarrow> nat \<Rightarrow> double \<Rightarrow> double list \<Rightarrow> nat \<Rightarrow> double list \<Rightarrow> nat \<Rightarrow> double list"
  dtrtri :: "nat \<Rightarrow> double list \<Rightarrow> nat \<Rightarrow> int \<times> double list"
  junk :: "nat \<Rightarrow> double"

section \<open>Store and stream operations\<close>

definition rd :: "'r world \<Rightarrow> addr \<Rightarrow> double list" where
  "rd w a = (case mem w a of Some b \<Rightarrow> b | None \<Rightarrow> [])"

definition wr :: "addr \<Rightarrow> double list \<Rightarrow> 'r world \<Rightarrow> 'r world" where
  "wr a b w = w\<lparr>mem := (mem w)(a \<mapsto> b)\<rparr>"

definition log_event :: "event \<Rightarrow> 'r world \<Rightarrow> 'r world" where
  "log_event e w = w\<lparr>trace := trace w @ [e]\<rparr>"

text \<open>
  A routine that works in place overwrites the caller's array and cannot resize it:
  the buffer keeps its length whatever list the parameter returns.
\<close>

definition inplace :: "double list \<Rightarrow> double list \<Rightarrow> double list" where
  "inplace old new = take (length old) new @ drop (length new) old"

text \<open>\<^verbatim>\<open>alloc3DArray(REALSXP, nrow, ncol, nface)\<close>: a fresh, uninitialised array.\<close>

definition alloc3DArray :: "'r prims \<Rightarrow> nat \<Rightarrow> nat \<Rightarrow> nat \<Rightarrow> 'r world \<Rightarrow> sexp \<times> 'r world" where
  "alloc3DArray P nrow ncol nface w =
     (\<lparr>sxtype = REALSXP, dim_attr = Some [nrow, ncol, nface], payload = brk w\<rparr>,
      w\<lparr>mem := (mem w)(brk w \<mapsto> map (junk P) [0..<nrow * ncol * nface]),
        brk := Suc (brk w),
        trace := trace w @ [Alloc3DArray nrow ncol nface]\<rparr>)"

text \<open>\<^verbatim>\<open>Calloc(n, double)\<close>: a fresh buffer of \<open>n\<close> zeros.\<close>

definition Calloc_double :: "nat \<Rightarrow> 'r world \<Rightarrow> addr \<times> 'r world" where
  "Calloc_double n w =
     (brk w,
      w\<lparr>mem := (mem w)(brk w \<mapsto> replicate n 0),
        brk := Suc (brk w),
        trace := trace w @ [Calloc n]\<rparr>)"

definition Free_buf :: "addr \<Rightarrow> 'r world \<Rightarrow> 'r world" where
  "Free_buf a w = w\<lparr>mem := (mem w)(a := None), trace := trace w @ [Free a]\<rparr>"

text \<open>
  \<^verbatim>\<open>Memcpy(dst, src, n)\<close> copies \<open>n\<close> doubles. Reading past the end of the source or
  writing past the end of the destination is \<open>None\<close>.
\<close>

definition Memcpy_double :: "addr \<Rightarrow> addr \<Rightarrow> nat \<Rightarrow> 'r world \<Rightarrow> 'r world option" where
  "Memcpy_double dst src n w =
     (case mem w dst of
        None \<Rightarrow> None
      | Some d \<Rightarrow>
         (case mem w src of
            None \<Rightarrow> None
          | Some s \<Rightarrow>
              if n \<le> length s \<and> n \<le> length d
              then Some (w\<lparr>mem := (mem w)(dst \<mapsto> take n s @ drop n d),
                           trace := trace w @ [Memcpy dst src n]\<rparr>)
              else None))"

text \<open>\<^verbatim>\<open>memset(a, 0, n * sizeof(double))\<close> on the buffer at an address.\<close>

definition memset0 :: "addr \<Rightarrow> nat \<Rightarrow> 'r world \<Rightarrow> 'r world" where
  "memset0 a n w = wr a (replicate n 0 @ drop n (rd w a)) w"

definition draw_chisq :: "'r prims \<Rightarrow> double \<Rightarrow> 'r world \<Rightarrow> double \<times> 'r world" where
  "draw_chisq P df w =
     (let (v, r) = rchisq P df (rng w)
      in (v, w\<lparr>rng := r, trace := trace w @ [Rchisq df]\<rparr>))"

definition draw_norm :: "'r prims \<Rightarrow> 'r world \<Rightarrow> double \<times> 'r world" where
  "draw_norm P w =
     (let (v, r) = norm_rand P (rng w)
      in (v, w\<lparr>rng := r, trace := trace w @ [Norm_rand]\<rparr>))"

section \<open>The standardised factor\<close>

text \<open>
  The inner loop of \<^verbatim>\<open>std_rWishart_factor\<close>, \<^verbatim>\<open>for (int i = 0; i < j; i++)\<close>: the third
  natural number counts the iterations done, so \<open>fill_rows P upper p j j\<close> is the whole
  loop of column \<open>j\<close>. The state is the buffer \<^verbatim>\<open>ans\<close> and the world.
\<close>

primrec fill_rows ::
  "'r prims \<Rightarrow> bool \<Rightarrow> nat \<Rightarrow> nat \<Rightarrow> nat \<Rightarrow> double list \<times> 'r world \<Rightarrow> double list \<times> 'r world"
where
  "fill_rows P upper p j 0 s = s"
| "fill_rows P upper p j (Suc i) s =
     (let (ans, w) = fill_rows P upper p j i s;
          uind = i + j * p;
          lind = j + i * p;
          (v, w1) = draw_norm P w;
          ans1 = ans[(if upper then uind else lind) := v];
          ans2 = ans1[(if upper then lind else uind) := 0]
      in (ans2, w1))"

text \<open>The outer loop, \<^verbatim>\<open>for (int j = 0; j < p; j++)\<close>, counted the same way.\<close>

primrec fill_cols ::
  "'r prims \<Rightarrow> double \<Rightarrow> nat \<Rightarrow> nat \<Rightarrow> bool \<Rightarrow> nat \<Rightarrow> double list \<times> 'r world \<Rightarrow> double list \<times> 'r world"
where
  "fill_cols P nu p pp1 upper 0 s = s"
| "fill_cols P nu p pp1 upper (Suc j) s =
     (let (ans, w) = fill_cols P nu p pp1 upper j s;
          (c, w1) = draw_chisq P (nu - real j) w;
          ans1 = ans[j * pp1 := sqrt c]
      in fill_rows P upper p j j (ans1, w1))"

text \<open>
  \<^verbatim>\<open>std_rWishart_factor(nu, p, upper, ans)\<close>. The array is passed in and handed back;
  the caller stores it where its pointer points. A buffer shorter than \<open>p * p\<close> would
  be overrun by the \<^verbatim>\<open>memset\<close>.
\<close>

definition std_rWishart_factor ::
  "'r prims \<Rightarrow> double \<Rightarrow> nat \<Rightarrow> bool \<Rightarrow> double list \<Rightarrow> 'r world \<Rightarrow> (error + double list) \<times> 'r world"
where
  "std_rWishart_factor P nu p upper ans w =
     (let pp1 = p + 1 in
      if nu < real p \<or> p \<le> 0 then (Inl InvalidDegreesOfFreedom, w)
      else if length ans < p * p then (Inl OutOfBounds, w)
      else
        let ans0 = replicate (p * p) 0 @ drop (p * p) ans;
            (ans', w') = fill_cols P nu p pp1 upper p (ans0, w)
        in (Inr ans', w'))"

section \<open>The two entry points\<close>

text \<open>
  \<^verbatim>\<open>isMatrix\<close> and \<^verbatim>\<open>isReal\<close> of the R API: a vector with a \<^verbatim>\<open>dim\<close> attribute of length
  two, and the type tag \<^verbatim>\<open>REALSXP\<close>.
\<close>

definition isVector :: "sexp \<Rightarrow> bool" where
  "isVector s \<longleftrightarrow> sxtype s \<in> {LGLSXP, INTSXP, REALSXP, CPLXSXP, STRSXP, VECSXP}"

definition isMatrix :: "sexp \<Rightarrow> bool" where
  "isMatrix s \<longleftrightarrow> isVector s \<and> (case dim_attr s of Some d \<Rightarrow> length d = 2 | None \<Rightarrow> False)"

definition isReal :: "sexp \<Rightarrow> bool" where
  "isReal s \<longleftrightarrow> sxtype s = REALSXP"

text \<open>
  \<^verbatim>\<open>INTEGER(getAttrib(scal, R_DimSymbol))\<close>, the initialiser of \<^verbatim>\<open>dims\<close> in the
  declarations of both entry points, evaluated before their first statement.
  \<^verbatim>\<open>getAttrib\<close> gives \<^verbatim>\<open>R_NilValue\<close> for an object without a \<^verbatim>\<open>dim\<close> attribute, and
  \<^verbatim>\<open>INTEGER\<close> raises an error for it; a \<^verbatim>\<open>dim\<close> attribute is an integer vector, and
  \<^verbatim>\<open>INTEGER\<close> returns its extents.
\<close>

definition INTEGER_dim :: "sexp \<Rightarrow> error + nat list" where
  "INTEGER_dim s = (case dim_attr s of None \<Rightarrow> Inl IntegerOfNull | Some d \<Rightarrow> Inr d)"

text \<open>The extents of an object that has them, to state properties with.\<close>

definition dims_of :: "sexp \<Rightarrow> nat list" where
  "dims_of s = (case dim_attr s of Some d \<Rightarrow> d | None \<Rightarrow> [])"

text \<open>
  The copy loops that end an iteration of either sampling loop,
  \<^verbatim>\<open>for i < dims[0]: for k < dims[0]: ansj[i + k * dims[0]] = tmp[i + k * dims[0]]\<close>,
  on the contents \<open>a\<close> of the output array, \<open>ansj\<close> being the offset \<open>off\<close> into it.
\<close>

primrec copy_k :: "nat \<Rightarrow> nat \<Rightarrow> double list \<Rightarrow> nat \<Rightarrow> nat \<Rightarrow> double list \<Rightarrow> double list" where
  "copy_k d off t i 0 a = a"
| "copy_k d off t i (Suc k) a = (copy_k d off t i k a)[off + (i + k * d) := t ! (i + k * d)]"

primrec copy_i :: "nat \<Rightarrow> nat \<Rightarrow> double list \<Rightarrow> nat \<Rightarrow> double list \<Rightarrow> double list" where
  "copy_i d off t 0 a = a"
| "copy_i d off t (Suc i) a = copy_k d off t i d (copy_i d off t i a)"

definition copy_out :: "nat \<Rightarrow> addr \<Rightarrow> nat \<Rightarrow> addr \<Rightarrow> 'r world \<Rightarrow> 'r world" where
  "copy_out d ansp off tmp w = wr ansp (copy_i d off (rd w tmp) d (rd w ansp)) w"

text \<open>
  The three routines called on buffers of the store. \<^verbatim>\<open>DPOTRF\<close> tests its arguments
  before it computes: an order \<open>n < 0\<close> (no natural number) or a leading dimension
  \<open>lda < max 1 n\<close> makes it call \<^verbatim>\<open>XERBLA\<close>, and the \<^verbatim>\<open>xerbla\<close> of R raises an R error,
  so the call does not return and the buffer is as it was. Both entry points pass
  \<^verbatim>\<open>dims[0]\<close> for \<open>n\<close> and for \<open>lda\<close>, so the test fails exactly for a matrix of order
  zero. \<^verbatim>\<open>DTRMM\<close> and \<^verbatim>\<open>DTRTRI\<close> have the same test; they are called in the sampling
  loops only, with \<^verbatim>\<open>dims[0]\<close> for every extent after \<^verbatim>\<open>DPOTRF\<close> has accepted it, where
  the test holds.
\<close>

definition call_dpotrf ::
  "'r prims \<Rightarrow> nat \<Rightarrow> addr \<Rightarrow> nat \<Rightarrow> 'r world \<Rightarrow> (error + int) \<times> 'r world" where
  "call_dpotrf P n a lda w =
     (if lda < max 1 n then (Inl LapackArgument, log_event (Dpotrf a) w)
      else
        let (info, a') = dpotrf P n (rd w a) lda
        in (Inr info, log_event (Dpotrf a) (wr a (inplace (rd w a) a') w)))"

definition call_dtrmm ::
  "'r prims \<Rightarrow> nat \<Rightarrow> nat \<Rightarrow> double \<Rightarrow> addr \<Rightarrow> nat \<Rightarrow> addr \<Rightarrow> nat \<Rightarrow> 'r world \<Rightarrow> 'r world" where
  "call_dtrmm P m n alpha a lda b ldb w =
     log_event (Dtrmm a b)
       (wr b (inplace (rd w b) (dtrmm P m n alpha (rd w a) lda (rd w b) ldb)) w)"

definition call_dtrtri :: "'r prims \<Rightarrow> nat \<Rightarrow> addr \<Rightarrow> nat \<Rightarrow> 'r world \<Rightarrow> int \<times> 'r world" where
  "call_dtrtri P n a lda w =
     (let (info, a') = dtrtri P n (rd w a) lda
      in (info, log_event (Dtrtri a) (wr a (inplace (rd w a) a') w)))"

text \<open>\<^verbatim>\<open>n = asInteger(ns); if (n <= 0) n = 1;\<close>\<close>

definition sample_count :: "int \<Rightarrow> nat" where
  "sample_count ns = (if ns \<le> 0 then 1 else nat ns)"

text \<open>
  One iteration of the loop of \<^verbatim>\<open>rInvCholWishart\<close>. \<^verbatim>\<open>info\<close> is written by
  \<^verbatim>\<open>dtrtri\<close> and not read afterwards.
\<close>

definition rInv_iter ::
  "'r prims \<Rightarrow> double \<Rightarrow> nat list \<Rightarrow> addr \<Rightarrow> addr \<Rightarrow> addr \<Rightarrow> nat \<Rightarrow> nat \<Rightarrow> 'r world
     \<Rightarrow> (error + unit) \<times> 'r world"
where
  "rInv_iter P nu dims scCp tmp ansp psqr j w =
     (let ansj = j * psqr in
      case std_rWishart_factor P nu (dims ! 0) True (rd w tmp) w of
        (Inl e, w1) \<Rightarrow> (Inl e, w1)
      | (Inr t, w1) \<Rightarrow>
          let w2 = wr tmp t w1;
              w3 = call_dtrmm P (dims ! 0) (dims ! 0) 1 scCp (dims ! 0) tmp (dims ! 0) w2;
              (info, w4) = call_dtrtri P (dims ! 1) tmp (dims ! 1) w3;
              w5 = copy_out (dims ! 0) ansp ansj tmp w4
          in (Inr (), w5))"

primrec rInv_loop ::
  "'r prims \<Rightarrow> double \<Rightarrow> nat list \<Rightarrow> addr \<Rightarrow> addr \<Rightarrow> addr \<Rightarrow> nat \<Rightarrow> nat \<Rightarrow> 'r world
     \<Rightarrow> (error + unit) \<times> 'r world"
where
  "rInv_loop P nu dims scCp tmp ansp psqr 0 w = (Inr (), w)"
| "rInv_loop P nu dims scCp tmp ansp psqr (Suc j) w =
     (case rInv_loop P nu dims scCp tmp ansp psqr j w of
        (Inl e, w') \<Rightarrow> (Inl e, w')
      | (Inr u, w') \<Rightarrow> rInv_iter P nu dims scCp tmp ansp psqr j w')"

definition rInvCholWishart ::
  "'r prims \<Rightarrow> int \<Rightarrow> double \<Rightarrow> sexp \<Rightarrow> 'r world \<Rightarrow> (error + sexp) \<times> 'r world"
where
  "rInvCholWishart P ns nuP scal w =
     (case INTEGER_dim scal of
        Inl e \<Rightarrow> (Inl e, w)
      | Inr dims \<Rightarrow>
          let nu = nuP in
          if \<not> isMatrix scal \<or> \<not> isReal scal \<or> dims ! 0 \<noteq> dims ! 1
          then (Inl InvalidShape, w)
          else
            let n = sample_count ns;
                (ans, w1) = alloc3DArray P (dims ! 0) (dims ! 0) n w;
                psqr = dims ! 0 * dims ! 0;
                (tmp, w2) = Calloc_double psqr w1;
                (scCp, w3) = Calloc_double psqr w2
            in
            (case Memcpy_double scCp (payload scal) psqr w3 of
               None \<Rightarrow> (Inl OutOfBounds, w3)
             | Some w4 \<Rightarrow>
                 let w5 = memset0 tmp psqr w4 in
                 (case call_dpotrf P (dims ! 0) scCp (dims ! 0) w5 of
                    (Inl e, w6) \<Rightarrow> (Inl e, w6)
                  | (Inr info, w6) \<Rightarrow>
                      if info \<noteq> 0 then (Inl NotPositiveDefinite, w6)
                      else
                        let ansp = payload ans;
                            w7 = log_event GetRNGstate w6
                        in
                        (case rInv_loop P nu dims scCp tmp ansp psqr n w7 of
                           (Inl e, w8) \<Rightarrow> (Inl e, w8)
                         | (Inr u, w8) \<Rightarrow>
                             let w9 = log_event PutRNGstate w8;
                                 w10 = Free_buf scCp w9;
                                 w11 = Free_buf tmp w10
                             in (Inr ans, w11)))))"

text \<open>One iteration of the loop of \<^verbatim>\<open>rCholWishart\<close>: the same, without \<^verbatim>\<open>dtrtri\<close>.\<close>

definition rChol_iter ::
  "'r prims \<Rightarrow> double \<Rightarrow> nat list \<Rightarrow> addr \<Rightarrow> addr \<Rightarrow> addr \<Rightarrow> nat \<Rightarrow> nat \<Rightarrow> 'r world
     \<Rightarrow> (error + unit) \<times> 'r world"
where
  "rChol_iter P nu dims scCp tmp ansp psqr j w =
     (let ansj = j * psqr in
      case std_rWishart_factor P nu (dims ! 0) True (rd w tmp) w of
        (Inl e, w1) \<Rightarrow> (Inl e, w1)
      | (Inr t, w1) \<Rightarrow>
          let w2 = wr tmp t w1;
              w3 = call_dtrmm P (dims ! 0) (dims ! 0) 1 scCp (dims ! 0) tmp (dims ! 0) w2;
              w4 = copy_out (dims ! 0) ansp ansj tmp w3
          in (Inr (), w4))"

primrec rChol_loop ::
  "'r prims \<Rightarrow> double \<Rightarrow> nat list \<Rightarrow> addr \<Rightarrow> addr \<Rightarrow> addr \<Rightarrow> nat \<Rightarrow> nat \<Rightarrow> 'r world
     \<Rightarrow> (error + unit) \<times> 'r world"
where
  "rChol_loop P nu dims scCp tmp ansp psqr 0 w = (Inr (), w)"
| "rChol_loop P nu dims scCp tmp ansp psqr (Suc j) w =
     (case rChol_loop P nu dims scCp tmp ansp psqr j w of
        (Inl e, w') \<Rightarrow> (Inl e, w')
      | (Inr u, w') \<Rightarrow> rChol_iter P nu dims scCp tmp ansp psqr j w')"

definition rCholWishart ::
  "'r prims \<Rightarrow> int \<Rightarrow> double \<Rightarrow> sexp \<Rightarrow> 'r world \<Rightarrow> (error + sexp) \<times> 'r world"
where
  "rCholWishart P ns nuP scal w =
     (case INTEGER_dim scal of
        Inl e \<Rightarrow> (Inl e, w)
      | Inr dims \<Rightarrow>
          let nu = nuP in
          if \<not> isMatrix scal \<or> \<not> isReal scal \<or> dims ! 0 \<noteq> dims ! 1
          then (Inl InvalidShape, w)
          else
            let n = sample_count ns;
                (ans, w1) = alloc3DArray P (dims ! 0) (dims ! 0) n w;
                psqr = dims ! 0 * dims ! 0;
                (tmp, w2) = Calloc_double psqr w1;
                (scCp, w3) = Calloc_double psqr w2
            in
            (case Memcpy_double scCp (payload scal) psqr w3 of
               None \<Rightarrow> (Inl OutOfBounds, w3)
             | Some w4 \<Rightarrow>
                 let w5 = memset0 tmp psqr w4 in
                 (case call_dpotrf P (dims ! 0) scCp (dims ! 0) w5 of
                    (Inl e, w6) \<Rightarrow> (Inl e, w6)
                  | (Inr info, w6) \<Rightarrow>
                      if info \<noteq> 0 then (Inl NotPositiveDefinite, w6)
                      else
                        let ansp = payload ans;
                            w7 = log_event GetRNGstate w6
                        in
                        (case rChol_loop P nu dims scCp tmp ansp psqr n w7 of
                           (Inl e, w8) \<Rightarrow> (Inl e, w8)
                         | (Inr u, w8) \<Rightarrow>
                             let w9 = log_event PutRNGstate w8;
                                 w10 = Free_buf scCp w9;
                                 w11 = Free_buf tmp w10
                             in (Inr ans, w11)))))"

section \<open>The variates of one factor, as the specification orders them\<close>

text \<open>
  Written from the specification, to be compared with the loops above: column \<open>j\<close>
  takes one chi-squared variate of shape \<open>nu - j\<close> and then \<open>j\<close> standard-normal
  variates, one for each row above the diagonal from the top down; the columns follow
  each other from \<open>0\<close> to \<open>p - 1\<close>.
\<close>

primrec normals :: "'r prims \<Rightarrow> nat \<Rightarrow> 'r \<Rightarrow> double list \<times> 'r" where
  "normals P 0 r = ([], r)"
| "normals P (Suc k) r =
     (let (vs, r1) = normals P k r; (v, r2) = norm_rand P r1 in (vs @ [v], r2))"

definition column_draws :: "'r prims \<Rightarrow> double \<Rightarrow> nat \<Rightarrow> 'r \<Rightarrow> (double \<times> double list) \<times> 'r" where
  "column_draws P nu j r =
     (let (c, r1) = rchisq P (nu - real j) r; (vs, r2) = normals P j r1 in ((c, vs), r2))"

primrec columns :: "'r prims \<Rightarrow> double \<Rightarrow> nat \<Rightarrow> 'r \<Rightarrow> (double \<times> double list) list \<times> 'r" where
  "columns P nu 0 r = ([], r)"
| "columns P nu (Suc j) r =
     (let (cs, r1) = columns P nu j r; (c, r2) = column_draws P nu j r1 in (cs @ [c], r2))"

definition draws_trace :: "double \<Rightarrow> nat \<Rightarrow> event list" where
  "draws_trace nu p = concat (map (\<lambda>j. Rchisq (nu - real j) # replicate j Norm_rand) [0..<p])"

text \<open>
  Entry \<open>(i, j)\<close> (row, column) of the factor built from the variates \<open>cs\<close> of the
  columns: the root of the column's chi-squared variate on the diagonal, the normal
  variates in the populated triangle and zero in the other.
\<close>

definition bartlett_entry :: "bool \<Rightarrow> (double \<times> double list) list \<Rightarrow> nat \<Rightarrow> nat \<Rightarrow> double" where
  "bartlett_entry upper cs i j =
     (if i = j then sqrt (fst (cs ! j))
      else if (i < j) = upper then snd (cs ! max i j) ! min i j
      else 0)"

definition bartlett :: "'r prims \<Rightarrow> double \<Rightarrow> nat \<Rightarrow> bool \<Rightarrow> 'r \<Rightarrow> double list" where
  "bartlett P nu p upper r =
     map (\<lambda>k. bartlett_entry upper (fst (columns P nu p r)) (k mod p) (k div p)) [0..<p * p]"

section \<open>Notions used to state the properties\<close>

text \<open>
  A scale argument that passes the shape test, and one whose payload is a buffer of the
  store that was allocated before the call and holds the \<open>p * p\<close> entries of the matrix.
\<close>

definition square_real :: "sexp \<Rightarrow> bool" where
  "square_real scal \<longleftrightarrow> isMatrix scal \<and> isReal scal \<and> dims_of scal ! 0 = dims_of scal ! 1"

definition live_scale :: "'r world \<Rightarrow> sexp \<Rightarrow> bool" where
  "live_scale w scal \<longleftrightarrow>
     payload scal < brk w \<and>
     (case mem w (payload scal) of
        Some b \<Rightarrow> dims_of scal ! 0 * dims_of scal ! 0 \<le> length b
      | None \<Rightarrow> False)"

text \<open>
  What \<^verbatim>\<open>dpotrf\<close> is given and what it answers when the order of the matrix is not
  zero: the copy of the scale matrix, the \<^verbatim>\<open>info\<close> it returns and the contents of the
  private buffer afterwards.
\<close>

definition scale_copy :: "'r world \<Rightarrow> sexp \<Rightarrow> double list" where
  "scale_copy w scal = take (dims_of scal ! 0 * dims_of scal ! 0) (rd w (payload scal))"

definition dpotrf_info :: "'r prims \<Rightarrow> 'r world \<Rightarrow> sexp \<Rightarrow> int" where
  "dpotrf_info P w scal = fst (dpotrf P (dims_of scal ! 0) (scale_copy w scal) (dims_of scal ! 0))"

definition scale_factor :: "'r prims \<Rightarrow> 'r world \<Rightarrow> sexp \<Rightarrow> double list" where
  "scale_factor P w scal =
     inplace (scale_copy w scal)
       (snd (dpotrf P (dims_of scal ! 0) (scale_copy w scal) (dims_of scal ! 0)))"

text \<open>
  The events of a call up to the factorisation, and the world they leave: the output
  array at the first fresh address \<open>a0\<close>, \<^verbatim>\<open>tmp\<close> and \<^verbatim>\<open>scCp\<close> at the next two.
  \<open>refused_world\<close> is the world when the factorisation has refused its arguments,
  where \<^verbatim>\<open>scCp\<close> holds the copy it was given; \<open>setup_world\<close> is the world when the
  factorisation has returned.
\<close>

definition setup_events :: "nat \<Rightarrow> nat \<Rightarrow> addr \<Rightarrow> addr \<Rightarrow> event list" where
  "setup_events p n a0 src =
     [Alloc3DArray p p n, Calloc (p * p), Calloc (p * p),
      Memcpy (Suc (Suc a0)) src (p * p), Dpotrf (Suc (Suc a0))]"

definition refused_world :: "'r prims \<Rightarrow> nat \<Rightarrow> sexp \<Rightarrow> 'r world \<Rightarrow> 'r world" where
  "refused_world P n scal w =
     w\<lparr>mem := (mem w)(brk w \<mapsto> map (junk P) [0..<dims_of scal ! 0 * dims_of scal ! 0 * n],
                      Suc (brk w) \<mapsto> replicate (dims_of scal ! 0 * dims_of scal ! 0) 0,
                      Suc (Suc (brk w)) \<mapsto> scale_copy w scal),
       brk := Suc (Suc (Suc (brk w))),
       trace := trace w @ setup_events (dims_of scal ! 0) n (brk w) (payload scal)\<rparr>"

definition setup_world :: "'r prims \<Rightarrow> nat \<Rightarrow> sexp \<Rightarrow> 'r world \<Rightarrow> 'r world" where
  "setup_world P n scal w =
     w\<lparr>mem := (mem w)(brk w \<mapsto> map (junk P) [0..<dims_of scal ! 0 * dims_of scal ! 0 * n],
                      Suc (brk w) \<mapsto> replicate (dims_of scal ! 0 * dims_of scal ! 0) 0,
                      Suc (Suc (brk w)) \<mapsto> scale_factor P w scal),
       brk := Suc (Suc (Suc (brk w))),
       trace := trace w @ setup_events (dims_of scal ! 0) n (brk w) (payload scal)\<rparr>"

text \<open>
  Written from the specification: the stream state before sample \<open>s\<close> (each sample
  consumes the variates of one factor); one sample is the standardised factor times the
  factor of the scale matrix; in inverse mode it is inverted in place.
\<close>

definition stream_at :: "'r prims \<Rightarrow> double \<Rightarrow> nat \<Rightarrow> nat \<Rightarrow> 'r \<Rightarrow> 'r" where
  "stream_at P nu p s r = ((\<lambda>r. snd (columns P nu p r)) ^^ s) r"

definition chol_sample :: "'r prims \<Rightarrow> double \<Rightarrow> nat \<Rightarrow> double list \<Rightarrow> 'r \<Rightarrow> double list" where
  "chol_sample P nu p U r =
     (let T = bartlett P nu p True r in inplace T (dtrmm P p p 1 U p T p))"

definition inv_sample :: "'r prims \<Rightarrow> double \<Rightarrow> nat \<Rightarrow> double list \<Rightarrow> 'r \<Rightarrow> double list" where
  "inv_sample P nu p U r =
     (let X = chol_sample P nu p U r in inplace X (snd (dtrtri P p X p)))"

text \<open>Matrix \<open>s\<close> of an output array of \<open>p\<close> by \<open>p\<close> matrices.\<close>

definition slot :: "nat \<Rightarrow> nat \<Rightarrow> double list \<Rightarrow> double list" where
  "slot p s buf = take (p * p) (drop (s * (p * p)) buf)"

text \<open>
  A \<open>p\<close> by \<open>p\<close> column-major buffer is upper-triangular when every entry of a row
  \<open>i\<close> below the diagonal of its column \<open>k\<close> is zero.
\<close>

definition lower_zero :: "nat \<Rightarrow> double list \<Rightarrow> bool" where
  "lower_zero p b \<longleftrightarrow> (\<forall>k<p. \<forall>i<p. k < i \<longrightarrow> b ! (i + k * p) = 0)"

text \<open>
  What the two routines are relied on for, as BLAS and LAPACK document them: \<^verbatim>\<open>dtrmm\<close>
  with \<^verbatim>\<open>"R", "U", "N", "N"\<close> replaces \<open>B\<close> by \<open>B\<close> times the upper triangle of \<open>A\<close>,
  so zeros below the diagonal of \<open>B\<close> stay zeros; \<^verbatim>\<open>dtrtri\<close> with \<^verbatim>\<open>"U"\<close> does not
  write below the diagonal.
\<close>

definition dtrmm_keeps_zeros :: "'r prims \<Rightarrow> bool" where
  "dtrmm_keeps_zeros P \<longleftrightarrow>
     (\<forall>p A B. length B = p * p \<and> lower_zero p B
        \<longrightarrow> lower_zero p (inplace B (dtrmm P p p 1 A p B p)))"

definition dtrtri_keeps_lower :: "'r prims \<Rightarrow> bool" where
  "dtrtri_keeps_lower P \<longleftrightarrow>
     (\<forall>p A. length A = p * p
        \<longrightarrow> (\<forall>k<p. \<forall>i<p. k < i
              \<longrightarrow> inplace A (snd (dtrtri P p A p)) ! (i + k * p) = A ! (i + k * p)))"

text \<open>
  The part of a log that concerns the random stream, and the events a call has added to
  the log of the world it started from.
\<close>

fun is_rng_event :: "event \<Rightarrow> bool" where
  "is_rng_event GetRNGstate = True"
| "is_rng_event PutRNGstate = True"
| "is_rng_event (Rchisq df) = True"
| "is_rng_event Norm_rand = True"
| "is_rng_event e = False"

definition rng_view :: "event list \<Rightarrow> event list" where
  "rng_view tr = filter is_rng_event tr"

definition added :: "'r world \<Rightarrow> 'r world \<Rightarrow> event list" where
  "added w w' = drop (length (trace w)) (trace w')"

section \<open>An instance of the parameters\<close>

text \<open>
  To run the model on concrete inputs, the routines in exact arithmetic: the stream is a
  tape of recorded variates, read front to back; a chi-squared variate is positive, so
  the magnitude of the number on the tape is taken, and \<open>1\<close> where the tape holds a
  zero or has run out. \<open>ref_dtrmm\<close> is the product \<open>B := alpha * B * A\<close> with the upper
  triangle of \<open>A\<close>; \<open>ref_dpotrf\<close> is the upper Cholesky factor, \<^verbatim>\<open>info = j\<close> when the
  leading minor of order \<open>j\<close> is not positive definite; \<open>ref_dtrtri\<close> is the inverse of
  an upper-triangular matrix by back substitution, \<^verbatim>\<open>info = j\<close> when the \<open>j\<close>-th
  diagonal entry is zero. Both stand for the routines on arguments that pass the
  argument test, and neither touches the strictly lower triangle. Arrays are
  column-major: entry \<open>(i, j)\<close> is at index \<open>i + j * lda\<close>.
\<close>

definition tape_rchisq :: "double \<Rightarrow> double list \<Rightarrow> double \<times> double list" where
  "tape_rchisq df r =
     (case r of [] \<Rightarrow> (1, []) | x # xs \<Rightarrow> (if x = 0 then 1 else \<bar>x\<bar>, xs))"

definition tape_norm_rand :: "double list \<Rightarrow> double \<times> double list" where
  "tape_norm_rand r = (case r of [] \<Rightarrow> (0, []) | x # xs \<Rightarrow> (x, xs))"

definition ref_dtrmm ::
  "nat \<Rightarrow> nat \<Rightarrow> double \<Rightarrow> double list \<Rightarrow> nat \<Rightarrow> double list \<Rightarrow> nat \<Rightarrow> double list" where
  "ref_dtrmm m n alpha a lda b ldb =
     map (\<lambda>idx.
            let i = idx mod ldb; j = idx div ldb in
            if i < m \<and> j < n
            then alpha * (\<Sum>k\<leftarrow>[0..<Suc j]. b ! (i + k * ldb) * a ! (k + j * lda))
            else b ! idx)
         [0..<length b]"

function chol_u :: "double list \<Rightarrow> nat \<Rightarrow> nat \<Rightarrow> nat \<Rightarrow> double" where
  "chol_u a lda i j =
     (if i = j
      then sqrt (a ! (i + i * lda) - (\<Sum>k\<leftarrow>[0..<i]. (chol_u a lda k i)\<^sup>2))
      else (a ! (i + j * lda) - (\<Sum>k\<leftarrow>[0..<i]. chol_u a lda k i * chol_u a lda k j))
             / chol_u a lda i i)"
  by pat_completeness auto
termination
  by (relation "measure (\<lambda>(a, lda, i, j). 2 * i + (if i = j then 0 else 1))") auto

declare chol_u.simps [simp del]

definition chol_pivot :: "double list \<Rightarrow> nat \<Rightarrow> nat \<Rightarrow> double" where
  "chol_pivot a lda j = a ! (j + j * lda) - (\<Sum>k\<leftarrow>[0..<j]. (chol_u a lda k j)\<^sup>2)"

definition ref_dpotrf :: "nat \<Rightarrow> double list \<Rightarrow> nat \<Rightarrow> int \<times> double list" where
  "ref_dpotrf n a lda =
     (case find (\<lambda>j. chol_pivot a lda j \<le> 0) [0..<n] of
        Some j \<Rightarrow> (int (Suc j), a)
      | None \<Rightarrow>
          (0, map (\<lambda>idx.
                     let i = idx mod lda; j = idx div lda in
                     if i \<le> j \<and> j < n then chol_u a lda i j else a ! idx)
                  [0..<length a]))"

function tri_inv :: "double list \<Rightarrow> nat \<Rightarrow> nat \<Rightarrow> nat \<Rightarrow> double" where
  "tri_inv a lda i j =
     (if j \<le> i then 1 / a ! (j + j * lda)
      else - (\<Sum>k\<leftarrow>[Suc i..<Suc j]. a ! (i + k * lda) * tri_inv a lda k j)
             / a ! (i + i * lda))"
  by pat_completeness auto
termination
  by (relation "measure (\<lambda>(a, lda, i, j). j - i)") auto

declare tri_inv.simps [simp del]

definition ref_dtrtri :: "nat \<Rightarrow> double list \<Rightarrow> nat \<Rightarrow> int \<times> double list" where
  "ref_dtrtri n a lda =
     (case find (\<lambda>j. a ! (j + j * lda) = 0) [0..<n] of
        Some j \<Rightarrow> (int (Suc j), a)
      | None \<Rightarrow>
          (0, map (\<lambda>idx.
                     let i = idx mod lda; j = idx div lda in
                     if i \<le> j \<and> j < n then tri_inv a lda i j else a ! idx)
                  [0..<length a]))"

definition ref_prims :: "double list prims" where
  "ref_prims =
     \<lparr>rchisq = tape_rchisq, norm_rand = tape_norm_rand, dpotrf = ref_dpotrf,
      dtrmm = ref_dtrmm, dtrtri = ref_dtrtri, junk = (\<lambda>i. 7)\<rparr>"

text \<open>
  Concrete inputs: a store that holds one caller-owned buffer at address 0, and scale
  arguments that point to it.
\<close>

definition world_of :: "double list \<Rightarrow> double list \<Rightarrow> double list world" where
  "world_of buf tape = \<lparr>mem = (\<lambda>a. if a = 0 then Some buf else None), brk = 1, rng = tape, trace = []\<rparr>"

definition real_matrix :: "nat \<Rightarrow> nat \<Rightarrow> sexp" where
  "real_matrix nrow ncol = \<lparr>sxtype = REALSXP, dim_attr = Some [nrow, ncol], payload = 0\<rparr>"


section \<open>Shape validation\<close>




section \<open>The standardised factor: what the loops compute\<close>

text \<open>Column-major indices \<open>i + j * p\<close> with \<open>i < p\<close> determine the row and the column.\<close>

lemma index_inj:
  fixes p :: nat
  assumes "i < p" "i' < p"
  shows "i + j * p = i' + j' * p \<longleftrightarrow> i = i' \<and> j = j'"
proof
  assume e: "i + j * p = i' + j' * p"
  have "(i + j * p) mod p = (i' + j' * p) mod p" using e by simp
  then have a: "i = i'" using assms by simp
  have "(i + j * p) div p = (i' + j' * p) div p" using e by simp
  then have "j = j'" using assms by simp
  with a show "i = i' \<and> j = j'" by simp
qed simp

lemma index_bound:
  fixes p :: nat
  assumes "i < p" "j < p"
  shows "i + j * p < p * p"
proof -
  have "i + j * p < p + j * p" using assms by simp
  also have "\<dots> = (Suc j) * p" by simp
  also have "\<dots> \<le> p * p" using assms(2) by (metis Suc_leI mult_le_mono1)
  finally show ?thesis .
qed

lemma fill_rows_Suc:
  "fill_rows P upper p j (Suc i) s =
     (let s' = fill_rows P upper p j i s; d = draw_norm P (snd s')
      in ((fst s')[(if upper then i + j * p else j + i * p) := fst d,
                   (if upper then j + i * p else i + j * p) := 0], snd d))"
  by (simp add: Let_def case_prod_beta)

lemma draw_norm_world:
  "snd (draw_norm P w) = w\<lparr>rng := snd (norm_rand P (rng w)), trace := trace w @ [Norm_rand]\<rparr>"
  "fst (draw_norm P w) = fst (norm_rand P (rng w))"
  by (simp_all add: draw_norm_def case_prod_beta)

lemma draw_chisq_world:
  "snd (draw_chisq P df w) = w\<lparr>rng := snd (rchisq P df (rng w)), trace := trace w @ [Rchisq df]\<rparr>"
  "fst (draw_chisq P df w) = fst (rchisq P df (rng w))"
  by (simp_all add: draw_chisq_def case_prod_beta)

lemma normals_Suc:
  "normals P (Suc k) r =
     (fst (normals P k r) @ [fst (norm_rand P (snd (normals P k r)))],
      snd (norm_rand P (snd (normals P k r))))"
  by (simp add: case_prod_beta)

lemma length_normals: "length (fst (normals P k r)) = k"
  by (induction k) (simp_all add: case_prod_beta)

lemma fill_rows_length: "length (fst (fill_rows P upper p j i (b, w))) = length b"
  by (induction i) (simp_all add: fill_rows_Suc Let_def del: fill_rows.simps(2))

lemma fill_rows_world:
  "snd (fill_rows P upper p j i (b, w))
     = w\<lparr>rng := snd (normals P i (rng w)), trace := trace w @ replicate i Norm_rand\<rparr>"
proof (induction i)
  case 0
  show ?case by simp
next
  case (Suc i)
  show ?case
    by (simp add: fill_rows_Suc Let_def Suc draw_norm_world normals_Suc replicate_append_same
        del: fill_rows.simps(2) normals.simps(2))
qed

lemma nth_update2:
  "u1 < length B \<Longrightarrow> u2 < length B \<Longrightarrow>
   B[u1 := v, u2 := z] ! k = (if u2 = k then z else if u1 = k then v else B ! k)"
  by (simp add: nth_list_update)

lemma fill_rows_entries:
  assumes "j < p" "i \<le> j" "p * p \<le> length b" "r < p" "c < p"
  shows "fst (fill_rows P upper p j i (b, w)) ! (r + c * p)
         = (if c = j \<and> r < i then (if upper then fst (normals P i (rng w)) ! r else 0)
            else if r = j \<and> c < i then (if upper then 0 else fst (normals P i (rng w)) ! c)
            else b ! (r + c * p))"
  using assms(2)
proof (induction i)
  case 0
  show ?case by simp
next
  case (Suc i)
  define B where "B = fst (fill_rows P upper p j i (b, w))"
  define vs where "vs = fst (normals P i (rng w))"
  define v where "v = fst (norm_rand P (snd (normals P i (rng w))))"
  from Suc have ij: "i < j" and IH: "B ! (r + c * p)
         = (if c = j \<and> r < i then (if upper then vs ! r else 0)
            else if r = j \<and> c < i then (if upper then 0 else vs ! c)
            else b ! (r + c * p))" by (simp_all add: B_def vs_def)
  have ip: "i < p" using ij assms(1) by simp
  have len: "length B = length b"
    unfolding B_def by (rule fill_rows_length)
  have b1: "i + j * p < length B" using index_bound[OF ip assms(1)] assms(3) len by simp
  have b2: "j + i * p < length B" using index_bound[OF assms(1) ip] assms(3) len by simp
  have e1: "i + j * p = r + c * p \<longleftrightarrow> i = r \<and> j = c"
    using index_inj[OF ip assms(4)] .
  have e2: "j + i * p = r + c * p \<longleftrightarrow> j = r \<and> i = c"
    using index_inj[OF assms(1) assms(4)] .
  have ln: "length vs = i" unfolding vs_def by (rule length_normals)
  have nS: "fst (normals P (Suc i) (rng w)) = vs @ [v]"
    by (simp add: normals_Suc vs_def v_def del: normals.simps(2))
  have step: "fst (fill_rows P upper p j (Suc i) (b, w))
      = B[(if upper then i + j * p else j + i * p) := v,
          (if upper then j + i * p else i + j * p) := 0]"
    by (simp add: fill_rows_Suc Let_def B_def v_def draw_norm_world fill_rows_world
        del: fill_rows.simps(2))
  show ?case
  proof (cases upper)
    case True
    have "fst (fill_rows P upper p j (Suc i) (b, w)) = B[i + j * p := v, j + i * p := 0]"
      unfolding step using True by (simp only: if_True)
    then have "fst (fill_rows P upper p j (Suc i) (b, w)) ! (r + c * p)
        = (if j + i * p = r + c * p then 0
           else if i + j * p = r + c * p then v else B ! (r + c * p))"
      by (simp only: nth_update2[OF b1 b2])
    also have "\<dots> = (if j = r \<and> i = c then 0 else if i = r \<and> j = c then v else B ! (r + c * p))"
      by (simp only: e1 e2)
    also have "\<dots> = (if c = j \<and> r < Suc i then (vs @ [v]) ! r
            else if r = j \<and> c < Suc i then 0 else b ! (r + c * p))"
      using True ij ln IH by (auto simp add: nth_append less_Suc_eq)
    finally show ?thesis using True by (simp add: nS del: normals.simps(2))
  next
    case False
    have "fst (fill_rows P upper p j (Suc i) (b, w)) = B[j + i * p := v, i + j * p := 0]"
      unfolding step using False by (simp only: if_False)
    then have "fst (fill_rows P upper p j (Suc i) (b, w)) ! (r + c * p)
        = (if i + j * p = r + c * p then 0
           else if j + i * p = r + c * p then v else B ! (r + c * p))"
      by (simp only: nth_update2[OF b2 b1])
    also have "\<dots> = (if i = r \<and> j = c then 0 else if j = r \<and> i = c then v else B ! (r + c * p))"
      by (simp only: e1 e2)
    also have "\<dots> = (if c = j \<and> r < Suc i then 0
            else if r = j \<and> c < Suc i then (vs @ [v]) ! c else b ! (r + c * p))"
      using False ij ln IH by (auto simp add: nth_append less_Suc_eq)
    finally show ?thesis using False by (simp add: nS del: normals.simps(2))
  qed
qed


lemma fill_cols_Suc:
  "fill_cols P nu p pp1 upper (Suc j) s =
     (let s' = fill_cols P nu p pp1 upper j s; d = draw_chisq P (nu - real j) (snd s')
      in fill_rows P upper p j j ((fst s')[j * pp1 := sqrt (fst d)], snd d))"
  by (simp add: Let_def case_prod_beta)

lemma columns_Suc:
  "columns P nu (Suc j) r =
     (fst (columns P nu j r)
        @ [(fst (rchisq P (nu - real j) (snd (columns P nu j r))),
            fst (normals P j (snd (rchisq P (nu - real j) (snd (columns P nu j r))))))],
      snd (normals P j (snd (rchisq P (nu - real j) (snd (columns P nu j r))))))"
  by (simp add: column_draws_def case_prod_beta)

lemma length_columns: "length (fst (columns P nu j r)) = j"
  by (induction j) (simp_all add: columns_Suc del: columns.simps(2))

lemma draws_trace_Suc:
  "draws_trace nu (Suc j) = draws_trace nu j @ Rchisq (nu - real j) # replicate j Norm_rand"
  by (simp add: draws_trace_def)

lemma fill_cols_length: "length (fst (fill_cols P nu p pp1 upper j (b, w))) = length b"
proof (induction j)
  case 0
  show ?case by simp
next
  case (Suc j)
  obtain B w' where s: "fill_cols P nu p pp1 upper j (b, w) = (B, w')"
    by (cases "fill_cols P nu p pp1 upper j (b, w)")
  with Suc have "length B = length b" by simp
  then show ?case
    by (simp add: fill_cols_Suc Let_def s fill_rows_length del: fill_cols.simps(2))
qed

lemma fill_cols_world:
  "snd (fill_cols P nu p pp1 upper j (b, w))
     = w\<lparr>rng := snd (columns P nu j (rng w)), trace := trace w @ draws_trace nu j\<rparr>"
proof (induction j)
  case 0
  show ?case by (simp add: draws_trace_def)
next
  case (Suc j)
  obtain B w' where s: "fill_cols P nu p pp1 upper j (b, w) = (B, w')"
    by (cases "fill_cols P nu p pp1 upper j (b, w)")
  with Suc have w': "w' = w\<lparr>rng := snd (columns P nu j (rng w)), trace := trace w @ draws_trace nu j\<rparr>"
    by simp
  show ?case
    by (simp add: fill_cols_Suc Let_def s fill_rows_world draw_chisq_world w' columns_Suc
        draws_trace_Suc del: fill_cols.simps(2) columns.simps(2))
qed

lemma fill_cols_entries:
  assumes "j \<le> p" "p * p \<le> length b" "r < p" "c < p"
  shows "fst (fill_cols P nu p (p + 1) upper j (b, w)) ! (r + c * p)
         = (if max r c < j then bartlett_entry upper (fst (columns P nu j (rng w))) r c
            else b ! (r + c * p))"
  using assms(1)
proof (induction j)
  case 0
  show ?case by simp
next
  case (Suc j)
  define B where "B = fst (fill_cols P nu p (p + 1) upper j (b, w))"
  define w' where "w' = snd (fill_cols P nu p (p + 1) upper j (b, w))"
  define cs where "cs = fst (columns P nu j (rng w))"
  define rj where "rj = snd (columns P nu j (rng w))"
  define ch where "ch = fst (rchisq P (nu - real j) rj)"
  define vs where "vs = fst (normals P j (snd (rchisq P (nu - real j) rj)))"
  from Suc have jp: "j < p" and IH: "B ! (r + c * p)
         = (if max r c < j then bartlett_entry upper cs r c else b ! (r + c * p))"
    by (simp_all add: B_def cs_def)
  have w': "w' = w\<lparr>rng := rj, trace := trace w @ draws_trace nu j\<rparr>"
    unfolding w'_def rj_def by (rule fill_cols_world)
  have len: "length B = length b" unfolding B_def by (rule fill_cols_length)
  have lcs: "length cs = j" unfolding cs_def by (rule length_columns)
  have bd: "j + j * p < length B" using index_bound[OF jp jp] assms(2) len by simp
  have ed: "j + j * p = r + c * p \<longleftrightarrow> j = r \<and> j = c"
    using index_inj[OF jp assms(3)] .
  have cS: "fst (columns P nu (Suc j) (rng w)) = cs @ [(ch, vs)]"
    by (simp add: columns_Suc cs_def ch_def vs_def rj_def del: columns.simps(2))
  have step: "fst (fill_cols P nu p (p + 1) upper (Suc j) (b, w))
      = fst (fill_rows P upper p j j (B[j + j * p := sqrt ch], snd (draw_chisq P (nu - real j) w')))"
    by (simp add: fill_cols_Suc Let_def B_def w'_def ch_def rj_def draw_chisq_world
        fill_cols_world add.commute del: fill_cols.simps(2))
  have rngd: "rng (snd (draw_chisq P (nu - real j) w')) = snd (rchisq P (nu - real j) rj)"
    by (simp add: draw_chisq_world w')
  have lB: "p * p \<le> length (B[j + j * p := sqrt ch])" using assms(2) len by simp
  have "fst (fill_cols P nu p (p + 1) upper (Suc j) (b, w)) ! (r + c * p)
      = (if c = j \<and> r < j then (if upper then vs ! r else 0)
         else if r = j \<and> c < j then (if upper then 0 else vs ! c)
         else B[j + j * p := sqrt ch] ! (r + c * p))"
    unfolding step
    using fill_rows_entries[OF jp order_refl lB assms(3) assms(4), of P upper
        "snd (draw_chisq P (nu - real j) w')"]
    by (simp only: rngd vs_def)
  also have "B[j + j * p := sqrt ch] ! (r + c * p)
      = (if j = r \<and> j = c then sqrt ch else B ! (r + c * p))"
    using bd by (simp only: nth_list_update ed)
  finally have "fst (fill_cols P nu p (p + 1) upper (Suc j) (b, w)) ! (r + c * p)
      = (if c = j \<and> r < j then (if upper then vs ! r else 0)
         else if r = j \<and> c < j then (if upper then 0 else vs ! c)
         else if j = r \<and> j = c then sqrt ch
         else if max r c < j then bartlett_entry upper cs r c else b ! (r + c * p))"
    by (simp only: IH)
  also have "\<dots> = (if max r c < Suc j then bartlett_entry upper (cs @ [(ch, vs)]) r c
            else b ! (r + c * p))"
    using lcs by (auto simp add: bartlett_entry_def nth_append max_def min_def)
  finally show ?case by (simp only: cS)
qed


lemma std_factor_guard:
  "nu < real p \<or> p = 0 \<Longrightarrow>
   std_rWishart_factor P nu p upper ans w = (Inl InvalidDegreesOfFreedom, w)"
  by (auto simp add: std_rWishart_factor_def)

lemma std_factor_run:
  assumes "0 < p" "real p \<le> nu" "p * p \<le> length ans"
  shows "std_rWishart_factor P nu p upper ans w
       = (Inr (fst (fill_cols P nu p (p + 1) upper p (replicate (p * p) 0 @ drop (p * p) ans, w))),
          w\<lparr>rng := snd (columns P nu p (rng w)), trace := trace w @ draws_trace nu p\<rparr>)"
proof -
  have "snd (fill_cols P nu p (p + 1) upper p (replicate (p * p) 0 @ drop (p * p) ans, w))
      = w\<lparr>rng := snd (columns P nu p (rng w)), trace := trace w @ draws_trace nu p\<rparr>"
    by (rule fill_cols_world)
  then show ?thesis
    using assms by (simp add: std_rWishart_factor_def Let_def case_prod_beta not_less)
qed

lemma std_factor_entry:
  assumes "0 < p" "real p \<le> nu" "p * p \<le> length ans" "r < p" "c < p"
  shows "fst (fill_cols P nu p (p + 1) upper p (replicate (p * p) 0 @ drop (p * p) ans, w))
           ! (r + c * p)
         = bartlett_entry upper (fst (columns P nu p (rng w))) r c"
proof -
  have l: "p * p \<le> length (replicate (p * p) (0::real) @ drop (p * p) ans)" by simp
  show ?thesis
    using fill_cols_entries[OF order_refl l assms(4) assms(5), of P nu upper w] assms(4,5)
    by simp
qed

lemma std_factor_closed:
  assumes "0 < p" "real p \<le> nu" "length ans = p * p"
  shows "std_rWishart_factor P nu p upper ans w
       = (Inr (bartlett P nu p upper (rng w)),
          w\<lparr>rng := snd (columns P nu p (rng w)), trace := trace w @ draws_trace nu p\<rparr>)"
proof -
  let ?A = "fst (fill_cols P nu p (p + 1) upper p (replicate (p * p) 0 @ drop (p * p) ans, w))"
  have le: "p * p \<le> length ans" using assms(3) by simp
  have lA: "length ?A = p * p" by (simp add: fill_cols_length assms(3))
  have "?A = bartlett P nu p upper (rng w)"
  proof (rule nth_equalityI)
    show "length ?A = length (bartlett P nu p upper (rng w))"
      using lA by (simp add: bartlett_def)
  next
    fix k assume "k < length ?A"
    then have k: "k < p * p" using lA by simp
    have r: "k mod p < p" using assms(1) by simp
    have c: "k div p < p" using k by (simp add: less_mult_imp_div_less)
    have "?A ! (k mod p + k div p * p) = bartlett_entry upper (fst (columns P nu p (rng w))) (k mod p) (k div p)"
      by (rule std_factor_entry[OF assms(1) assms(2) le r c])
    then show "?A ! k = bartlett P nu p upper (rng w) ! k"
      using k by (simp add: bartlett_def)
  qed
  then show ?thesis using std_factor_run[OF assms(1) assms(2) le, of P upper w] by simp
qed

text \<open>
  Claim C4. For \<open>p \<ge> 1\<close> and \<open>nu \<ge> p\<close> (and a buffer of at least \<open>p * p\<close> entries)
  \<open>std_rWishart_factor\<close> returns normally; the events it adds to the log are, column
  after column from \<open>0\<close> to \<open>p - 1\<close>, one chi-squared draw of shape \<open>nu - j\<close> followed
  by \<open>j\<close> normal draws (\<open>draws_trace\<close>), the stream ends in the state these draws
  leave, and in the buffer the diagonal entry \<open>j * (p + 1)\<close> is the square root of
  column \<open>j\<close>'s chi-squared variate, the entry of row \<open>i < j\<close> in the populated
  triangle is the \<open>i\<close>-th normal variate of column \<open>j\<close>, and its mirror entry is
  exactly \<open>0\<close>.
\<close>

theorem std_factor_fill_order:
  assumes "1 \<le> p" "real p \<le> nu" "p * p \<le> length ans"
  shows "\<exists>ans' w'.
           std_rWishart_factor P nu p upper ans w = (Inr ans', w')
         \<and> rng w' = snd (columns P nu p (rng w))
         \<and> trace w' = trace w @ draws_trace nu p
         \<and> (\<forall>j<p. ans' ! (j * (p + 1)) = sqrt (fst (fst (columns P nu p (rng w)) ! j))
                \<and> (\<forall>i<j. ans' ! (if upper then i + j * p else j + i * p)
                            = snd (fst (columns P nu p (rng w)) ! j) ! i
                         \<and> ans' ! (if upper then j + i * p else i + j * p) = 0))"
proof -
  let ?A = "fst (fill_cols P nu p (p + 1) upper p (replicate (p * p) 0 @ drop (p * p) ans, w))"
  let ?cs = "fst (columns P nu p (rng w))"
  have p: "0 < p" using assms(1) by simp
  have run: "std_rWishart_factor P nu p upper ans w
       = (Inr ?A, w\<lparr>rng := snd (columns P nu p (rng w)), trace := trace w @ draws_trace nu p\<rparr>)"
    by (rule std_factor_run[OF p assms(2) assms(3)])
  have ent: "\<And>r c. r < p \<Longrightarrow> c < p \<Longrightarrow> ?A ! (r + c * p) = bartlett_entry upper ?cs r c"
    by (rule std_factor_entry[OF p assms(2) assms(3)])
  have "\<forall>j<p. ?A ! (j * (p + 1)) = sqrt (fst (?cs ! j))
                \<and> (\<forall>i<j. ?A ! (if upper then i + j * p else j + i * p) = snd (?cs ! j) ! i
                         \<and> ?A ! (if upper then j + i * p else i + j * p) = 0)"
  proof (intro allI impI conjI)
    fix j assume j: "j < p"
    have "?A ! (j + j * p) = bartlett_entry upper ?cs j j" by (rule ent[OF j j])
    then show "?A ! (j * (p + 1)) = sqrt (fst (?cs ! j))"
      by (simp add: bartlett_entry_def add.commute)
  next
    fix j i assume j: "j < p" and i: "i < j"
    have ip: "i < p" using i j by simp
    have u: "?A ! (i + j * p) = bartlett_entry upper ?cs i j" by (rule ent[OF ip j])
    have l: "?A ! (j + i * p) = bartlett_entry upper ?cs j i" by (rule ent[OF j ip])
    show "?A ! (if upper then i + j * p else j + i * p) = snd (?cs ! j) ! i"
      using u l i by (cases upper) (simp_all add: bartlett_entry_def max_def min_def)
    show "?A ! (if upper then j + i * p else i + j * p) = 0"
      using u l i by (cases upper) (simp_all add: bartlett_entry_def max_def min_def)
  qed
  with run show ?thesis by simp
qed


theorem std_factor_fill_order_witness:
  "1 \<le> (2::nat) \<and> real 2 \<le> (5::real) \<and> 2 * 2 \<le> length [9, 9, 9, 9 :: real]
   \<and> std_rWishart_factor ref_prims 5 2 True [9, 9, 9, 9] (world_of [] [4, 9, 1 / 2])
       = (Inr [2, 0, 1 / 2, 3],
          (world_of [] [4, 9, 1 / 2])\<lparr>rng := [], trace := [Rchisq 5, Rchisq 4, Norm_rand]\<rparr>)"
proof -
  have s4: "sqrt 4 = 2" and s9: "sqrt 9 = 3"
    using real_sqrt_abs[of 2] real_sqrt_abs[of 3] by simp_all
  show ?thesis
    using std_factor_fill_order[of 2 5 "[9, 9, 9, 9]" ref_prims True "world_of [] [4, 9, 1 / 2]"]
    by (simp add: std_rWishart_factor_def numeral_2_eq_2 draw_chisq_def draw_norm_def
        ref_prims_def tape_rchisq_def tape_norm_rand_def world_of_def s4 s9)
qed

section \<open>The sampling loops in closed form\<close>

lemma copy_k_length: "length (copy_k d off t i m a) = length a"
  by (induction m) simp_all

lemma copy_i_length: "length (copy_i d off t m a) = length a"
  by (induction m) (simp_all add: copy_k_length)

lemma copy_k_outside:
  "x < off \<or> off + d * d \<le> x \<Longrightarrow> i < d \<Longrightarrow> m \<le> d \<Longrightarrow> copy_k d off t i m a ! x = a ! x"
proof (induction m)
  case 0
  show ?case by simp
next
  case (Suc m)
  have "i + m * d < d * d" using index_bound[of i d m] Suc.prems by simp
  then have "off + (i + m * d) \<noteq> x" using Suc.prems(1) by auto
  then show ?case using Suc by simp
qed

lemma copy_i_outside:
  "x < off \<or> off + d * d \<le> x \<Longrightarrow> m \<le> d \<Longrightarrow> copy_i d off t m a ! x = a ! x"
  by (induction m) (simp_all add: copy_k_outside)

lemma copy_k_inside:
  assumes "i < d" "m \<le> d" "r < d" "c < d" "off + d * d \<le> length a"
  shows "copy_k d off t i m a ! (off + (r + c * d))
       = (if r = i \<and> c < m then t ! (r + c * d) else a ! (off + (r + c * d)))"
  using assms(2)
proof (induction m)
  case 0
  show ?case by simp
next
  case (Suc m)
  have md: "m < d" using Suc.prems by simp
  have e: "i + m * d = r + c * d \<longleftrightarrow> i = r \<and> m = c"
    using index_inj[OF assms(1) assms(3)] .
  have "i + m * d < d * d" using index_bound[OF assms(1) md] .
  then have b: "off + (i + m * d) < length (copy_k d off t i m a)"
    using assms(5) by (simp add: copy_k_length)
  have IH: "copy_k d off t i m a ! (off + (r + c * d))
       = (if r = i \<and> c < m then t ! (r + c * d) else a ! (off + (r + c * d)))"
    using Suc by simp
  have "copy_k d off t i (Suc m) a ! (off + (r + c * d))
      = (if off + (i + m * d) = off + (r + c * d) then t ! (i + m * d)
         else copy_k d off t i m a ! (off + (r + c * d)))"
    using b by (simp only: copy_k.simps nth_list_update)
  also have "\<dots> = (if i = r \<and> m = c then t ! (i + m * d)
         else copy_k d off t i m a ! (off + (r + c * d)))"
    using e by simp
  finally show ?case using IH by (auto simp add: less_Suc_eq)
qed

lemma copy_i_inside:
  assumes "m \<le> d" "r < d" "c < d" "off + d * d \<le> length a"
  shows "copy_i d off t m a ! (off + (r + c * d))
       = (if r < m then t ! (r + c * d) else a ! (off + (r + c * d)))"
  using assms(1)
proof (induction m)
  case 0
  show ?case by simp
next
  case (Suc m)
  have md: "m < d" using Suc.prems by simp
  have l: "off + d * d \<le> length (copy_i d off t m a)"
    using assms(4) by (simp add: copy_i_length)
  have IH: "copy_i d off t m a ! (off + (r + c * d))
       = (if r < m then t ! (r + c * d) else a ! (off + (r + c * d)))"
    using Suc by simp
  show ?case
    using copy_k_inside[OF md order_refl assms(2) assms(3) l, of t] IH assms(3)
    by (auto simp add: less_Suc_eq)
qed

lemma copy_i_window:
  assumes "off + d * d \<le> length a" "d * d \<le> length t"
  shows "copy_i d off t d a = take off a @ take (d * d) t @ drop (off + d * d) a"
proof (rule nth_equalityI)
  show "length (copy_i d off t d a) = length (take off a @ take (d * d) t @ drop (off + d * d) a)"
    using assms by (simp add: copy_i_length)
next
  fix x assume "x < length (copy_i d off t d a)"
  then have xl: "x < length a" by (simp add: copy_i_length)
  consider "x < off" | "off \<le> x" "x < off + d * d" | "off + d * d \<le> x" by linarith
  then show "copy_i d off t d a ! x = (take off a @ take (d * d) t @ drop (off + d * d) a) ! x"
  proof cases
    case 1
    then show ?thesis using assms by (simp add: copy_i_outside nth_append)
  next
    case 2
    define y where "y = x - off"
    have y: "y < d * d" and x: "x = off + y" using 2 by (simp_all add: y_def)
    have d: "0 < d" using y by (cases d) simp_all
    have r: "y mod d < d" using d by simp
    have c: "y div d < d" using y by (simp add: less_mult_imp_div_less)
    have "copy_i d off t d a ! (off + (y mod d + y div d * d)) = t ! (y mod d + y div d * d)"
      using copy_i_inside[OF order_refl r c assms(1), of t] r by simp
    then have "copy_i d off t d a ! x = t ! y" by (simp add: x)
    moreover have "(take off a @ take (d * d) t @ drop (off + d * d) a) ! x = t ! y"
      using 2 assms y by (simp add: nth_append x)
    ultimately show ?thesis by simp
  next
    case 3
    have n1: "\<not> x < off" and n2: "\<not> x - off < d * d" using 3 by linarith+
    have e: "off + d * d + (x - off - d * d) = x" using 3 by linarith
    have "(take off a @ take (d * d) t @ drop (off + d * d) a) ! x
        = drop (off + d * d) a ! (x - off - d * d)"
      using n1 n2 assms xl by (simp add: nth_append min_def)
    also have "\<dots> = a ! x"
      using assms(1) e by (simp add: nth_drop)
    finally have "(take off a @ take (d * d) t @ drop (off + d * d) a) ! x = a ! x" .
    then show ?thesis using 3 by (simp add: copy_i_outside)
  qed
qed


lemma length_inplace [simp]: "length (inplace old new) = length old"
  by (simp add: inplace_def)

lemma length_bartlett [simp]: "length (bartlett P nu p upper r) = p * p"
  by (simp add: bartlett_def)

lemma length_chol_sample [simp]: "length (chol_sample P nu p U r) = p * p"
  by (simp add: chol_sample_def Let_def)

lemma length_inv_sample [simp]: "length (inv_sample P nu p U r) = p * p"
  by (simp add: inv_sample_def Let_def)

lemma rChol_iter_run:
  assumes "dims ! 0 = p" "0 < p" "real p \<le> nu"
    and "mem w tmp = Some T" "length T = p * p"
    and "mem w scCp = Some U"
    and "mem w ansp = Some A" "j * (p * p) + p * p \<le> length A"
    and "tmp \<noteq> scCp" "tmp \<noteq> ansp" "scCp \<noteq> ansp"
  shows "rChol_iter P nu dims scCp tmp ansp (p * p) j w
       = (Inr (),
          w\<lparr>mem := (mem w)(tmp \<mapsto> chol_sample P nu p U (rng w),
                           ansp \<mapsto> take (j * (p * p)) A @ chol_sample P nu p U (rng w)
                                      @ drop (j * (p * p) + p * p) A),
            rng := snd (columns P nu p (rng w)),
            trace := trace w @ draws_trace nu p @ [Dtrmm scCp tmp]\<rparr>)"
proof -
  let ?X = "chol_sample P nu p U (rng w)"
  have f: "std_rWishart_factor P nu p True T w
       = (Inr (bartlett P nu p True (rng w)),
          w\<lparr>rng := snd (columns P nu p (rng w)), trace := trace w @ draws_trace nu p\<rparr>)"
    by (rule std_factor_closed[OF assms(2) assms(3) assms(5)])
  have c: "copy_i p (j * (p * p)) ?X p A
      = take (j * (p * p)) A @ take (p * p) ?X @ drop (j * (p * p) + p * p) A"
    by (rule copy_i_window) (use assms(8) in simp_all)
  have d: "scCp \<noteq> tmp" "ansp \<noteq> tmp" "ansp \<noteq> scCp" using assms(9-11) by auto
  show ?thesis
    using assms(1,4,6,7,9,10,11) d
    by (simp add: rChol_iter_def f Let_def call_dtrmm_def copy_out_def rd_def wr_def
        log_event_def c[unfolded chol_sample_def Let_def] chol_sample_def)
qed

lemma rInv_iter_run:
  assumes "dims ! 0 = p" "dims ! 1 = p" "0 < p" "real p \<le> nu"
    and "mem w tmp = Some T" "length T = p * p"
    and "mem w scCp = Some U"
    and "mem w ansp = Some A" "j * (p * p) + p * p \<le> length A"
    and "tmp \<noteq> scCp" "tmp \<noteq> ansp" "scCp \<noteq> ansp"
  shows "rInv_iter P nu dims scCp tmp ansp (p * p) j w
       = (Inr (),
          w\<lparr>mem := (mem w)(tmp \<mapsto> inv_sample P nu p U (rng w),
                           ansp \<mapsto> take (j * (p * p)) A @ inv_sample P nu p U (rng w)
                                      @ drop (j * (p * p) + p * p) A),
            rng := snd (columns P nu p (rng w)),
            trace := trace w @ draws_trace nu p @ [Dtrmm scCp tmp, Dtrtri tmp]\<rparr>)"
proof -
  let ?X = "inv_sample P nu p U (rng w)"
  have f: "std_rWishart_factor P nu p True T w
       = (Inr (bartlett P nu p True (rng w)),
          w\<lparr>rng := snd (columns P nu p (rng w)), trace := trace w @ draws_trace nu p\<rparr>)"
    by (rule std_factor_closed[OF assms(3) assms(4) assms(6)])
  have c: "copy_i p (j * (p * p)) ?X p A
      = take (j * (p * p)) A @ take (p * p) ?X @ drop (j * (p * p) + p * p) A"
    by (rule copy_i_window) (use assms(9) in simp_all)
  have d: "scCp \<noteq> tmp" "ansp \<noteq> tmp" "ansp \<noteq> scCp" using assms(10-12) by auto
  show ?thesis
    using assms(1,2,5,7,8,10,11,12) d
    by (simp add: rInv_iter_def f Let_def call_dtrmm_def call_dtrtri_def copy_out_def rd_def
        wr_def log_event_def c[unfolded inv_sample_def chol_sample_def Let_def]
        case_prod_beta chol_sample_def inv_sample_def)
qed


lemma length_concat_samples:
  "(\<And>s. length (f s) = q) \<Longrightarrow> length (concat (map f [0..<j])) = j * q"
  by (induction j) simp_all

lemma concat_replicate_snoc: "concat (replicate (Suc j) x) = concat (replicate j x) @ x"
  by (induction j) simp_all

lemma stream_at_Suc: "stream_at P nu p (Suc s) r = snd (columns P nu p (stream_at P nu p s r))"
  by (simp add: stream_at_def)

lemma stream_at_0: "stream_at P nu p 0 r = r"
  by (simp add: stream_at_def)

lemma rChol_loop_run:
  assumes "dims ! 0 = p" "0 < p" "real p \<le> nu"
    and "mem w tmp = Some T" "length T = p * p"
    and "mem w scCp = Some U"
    and "mem w ansp = Some A" "n * (p * p) \<le> length A"
    and "tmp \<noteq> scCp" "tmp \<noteq> ansp" "scCp \<noteq> ansp"
  shows "j \<le> n \<Longrightarrow>
       rChol_loop P nu dims scCp tmp ansp (p * p) j w
       = (Inr (),
          w\<lparr>mem := (mem w)(tmp \<mapsto> (case j of 0 \<Rightarrow> T
                                    | Suc k \<Rightarrow> chol_sample P nu p U (stream_at P nu p k (rng w))),
                           ansp \<mapsto> concat (map (\<lambda>s. chol_sample P nu p U (stream_at P nu p s (rng w))) [0..<j])
                                      @ drop (j * (p * p)) A),
            rng := stream_at P nu p j (rng w),
            trace := trace w @ concat (replicate j (draws_trace nu p @ [Dtrmm scCp tmp]))\<rparr>)"
proof (induction j)
  case 0
  have "(mem w)(tmp \<mapsto> T, ansp \<mapsto> A) = mem w"
    using assms(4,7) by (simp add: fun_upd_idem)
  then have e: "w\<lparr>mem := (mem w)(tmp \<mapsto> T, ansp \<mapsto> A), rng := rng w, trace := trace w\<rparr> = w"
    by simp
  have "rChol_loop P nu dims scCp tmp ansp (p * p) 0 w
      = (Inr (), w\<lparr>mem := (mem w)(tmp \<mapsto> T, ansp \<mapsto> A), rng := rng w, trace := trace w\<rparr>)"
    by (simp only: e rChol_loop.simps)
  then show ?case
    by (simp only: stream_at_0 nat.case upt_0 list.map concat.simps append_Nil mult_0 drop_0
        replicate_0 append_Nil2)
next
  case (Suc j)
  let ?f = "\<lambda>s. chol_sample P nu p U (stream_at P nu p s (rng w))"
  let ?Aj = "concat (map ?f [0..<j]) @ drop (j * (p * p)) A"
  define Tj where "Tj = (case j of 0 \<Rightarrow> T | Suc k \<Rightarrow> ?f k)"
  define wj where "wj = w\<lparr>mem := (mem w)(tmp \<mapsto> Tj, ansp \<mapsto> ?Aj),
            rng := stream_at P nu p j (rng w),
            trace := trace w @ concat (replicate j (draws_trace nu p @ [Dtrmm scCp tmp]))\<rparr>"
  have jn': "j \<le> n" using Suc.prems by simp
  have run: "rChol_loop P nu dims scCp tmp ansp (p * p) j w = (Inr (), wj)"
    unfolding wj_def Tj_def by (rule Suc.IH[OF jn'])
  have Tj: "length Tj = p * p" using assms(5) by (simp add: Tj_def split: nat.split)
  have lc: "length (concat (map ?f [0..<j])) = j * (p * p)"
    by (rule length_concat_samples) simp
  have jn: "Suc j * (p * p) \<le> length A"
    using Suc.prems assms(8) by (meson le_trans mult_le_mono1)
  have m1: "mem wj tmp = Some Tj" using assms(10) by (simp add: wj_def)
  have m2: "mem wj scCp = Some U" using assms(6,9,11) by (auto simp add: wj_def)
  have m3: "mem wj ansp = Some ?Aj" by (simp add: wj_def)
  have lA: "j * (p * p) + p * p \<le> length ?Aj" using jn lc by simp
  have it: "rChol_iter P nu dims scCp tmp ansp (p * p) j wj
       = (Inr (),
          wj\<lparr>mem := (mem wj)(tmp \<mapsto> chol_sample P nu p U (rng wj),
                           ansp \<mapsto> take (j * (p * p)) ?Aj @ chol_sample P nu p U (rng wj)
                                      @ drop (j * (p * p) + p * p) ?Aj),
            rng := snd (columns P nu p (rng wj)),
            trace := trace wj @ draws_trace nu p @ [Dtrmm scCp tmp]\<rparr>)"
    by (rule rChol_iter_run[OF assms(1-3) m1 Tj m2 m3 lA assms(9-11)])
  have t: "take (j * (p * p)) ?Aj = concat (map ?f [0..<j])" using lc by simp
  have d: "drop (j * (p * p) + p * p) ?Aj = drop (Suc j * (p * p)) A"
    using lc by (simp add: add.commute)
  have r: "rng wj = stream_at P nu p j (rng w)" by (simp add: wj_def)
  have mm: "(mem wj)(tmp \<mapsto> X, ansp \<mapsto> Y) = (mem w)(tmp \<mapsto> X, ansp \<mapsto> Y)" for X Y
    by (rule ext) (simp add: wj_def)
  have tr: "trace wj @ draws_trace nu p @ [Dtrmm scCp tmp]
      = trace w @ concat (replicate (Suc j) (draws_trace nu p @ [Dtrmm scCp tmp]))"
    by (simp add: wj_def concat_replicate_snoc del: replicate.simps)
  have wjw: "wj\<lparr>mem := M, rng := R, trace := TR\<rparr> = w\<lparr>mem := M, rng := R, trace := TR\<rparr>" for M R TR
    by (simp add: wj_def)
  have cc: "concat (map ?f [0..<Suc j]) = concat (map ?f [0..<j]) @ ?f j"
    by simp
  have "rChol_loop P nu dims scCp tmp ansp (p * p) (Suc j) w
      = rChol_iter P nu dims scCp tmp ansp (p * p) j wj"
    by (simp add: run)
  also have "\<dots> = (Inr (),
          wj\<lparr>mem := (mem w)(tmp \<mapsto> ?f j,
                           ansp \<mapsto> concat (map ?f [0..<j]) @ ?f j @ drop (Suc j * (p * p)) A),
            rng := stream_at P nu p (Suc j) (rng w),
            trace := trace w @ concat (replicate (Suc j) (draws_trace nu p @ [Dtrmm scCp tmp]))\<rparr>)"
    by (simp only: it t d r mm tr stream_at_Suc)
  also have "\<dots> = (Inr (),
          w\<lparr>mem := (mem w)(tmp \<mapsto> ?f j,
                           ansp \<mapsto> concat (map ?f [0..<Suc j]) @ drop (Suc j * (p * p)) A),
            rng := stream_at P nu p (Suc j) (rng w),
            trace := trace w @ concat (replicate (Suc j) (draws_trace nu p @ [Dtrmm scCp tmp]))\<rparr>)"
    by (simp only: wjw cc append_assoc)
  finally show ?case by (simp only: nat.case)
qed

lemma rInv_loop_run:
  assumes "dims ! 0 = p" "0 < p" "real p \<le> nu"
    and "mem w tmp = Some T" "length T = p * p"
    and "mem w scCp = Some U"
    and "mem w ansp = Some A" "n * (p * p) \<le> length A"
    and "tmp \<noteq> scCp" "tmp \<noteq> ansp" "scCp \<noteq> ansp"
    and d1: "dims ! 1 = p"
  shows "j \<le> n \<Longrightarrow>
       rInv_loop P nu dims scCp tmp ansp (p * p) j w
       = (Inr (),
          w\<lparr>mem := (mem w)(tmp \<mapsto> (case j of 0 \<Rightarrow> T
                                    | Suc k \<Rightarrow> inv_sample P nu p U (stream_at P nu p k (rng w))),
                           ansp \<mapsto> concat (map (\<lambda>s. inv_sample P nu p U (stream_at P nu p s (rng w))) [0..<j])
                                      @ drop (j * (p * p)) A),
            rng := stream_at P nu p j (rng w),
            trace := trace w @ concat (replicate j (draws_trace nu p @ [Dtrmm scCp tmp, Dtrtri tmp]))\<rparr>)"
proof (induction j)
  case 0
  have "(mem w)(tmp \<mapsto> T, ansp \<mapsto> A) = mem w"
    using assms(4,7) by (simp add: fun_upd_idem)
  then have e: "w\<lparr>mem := (mem w)(tmp \<mapsto> T, ansp \<mapsto> A), rng := rng w, trace := trace w\<rparr> = w"
    by simp
  have "rInv_loop P nu dims scCp tmp ansp (p * p) 0 w
      = (Inr (), w\<lparr>mem := (mem w)(tmp \<mapsto> T, ansp \<mapsto> A), rng := rng w, trace := trace w\<rparr>)"
    by (simp only: e rInv_loop.simps)
  then show ?case
    by (simp only: stream_at_0 nat.case upt_0 list.map concat.simps append_Nil mult_0 drop_0
        replicate_0 append_Nil2)
next
  case (Suc j)
  let ?f = "\<lambda>s. inv_sample P nu p U (stream_at P nu p s (rng w))"
  let ?Aj = "concat (map ?f [0..<j]) @ drop (j * (p * p)) A"
  define Tj where "Tj = (case j of 0 \<Rightarrow> T | Suc k \<Rightarrow> ?f k)"
  define wj where "wj = w\<lparr>mem := (mem w)(tmp \<mapsto> Tj, ansp \<mapsto> ?Aj),
            rng := stream_at P nu p j (rng w),
            trace := trace w @ concat (replicate j (draws_trace nu p @ [Dtrmm scCp tmp, Dtrtri tmp]))\<rparr>"
  have jn': "j \<le> n" using Suc.prems by simp
  have run: "rInv_loop P nu dims scCp tmp ansp (p * p) j w = (Inr (), wj)"
    unfolding wj_def Tj_def by (rule Suc.IH[OF jn'])
  have Tj: "length Tj = p * p" using assms(5) by (simp add: Tj_def split: nat.split)
  have lc: "length (concat (map ?f [0..<j])) = j * (p * p)"
    by (rule length_concat_samples) simp
  have jn: "Suc j * (p * p) \<le> length A"
    using Suc.prems assms(8) by (meson le_trans mult_le_mono1)
  have m1: "mem wj tmp = Some Tj" using assms(10) by (simp add: wj_def)
  have m2: "mem wj scCp = Some U" using assms(6,9,11) by (auto simp add: wj_def)
  have m3: "mem wj ansp = Some ?Aj" by (simp add: wj_def)
  have lA: "j * (p * p) + p * p \<le> length ?Aj" using jn lc by simp
  have it: "rInv_iter P nu dims scCp tmp ansp (p * p) j wj
       = (Inr (),
          wj\<lparr>mem := (mem wj)(tmp \<mapsto> inv_sample P nu p U (rng wj),
                           ansp \<mapsto> take (j * (p * p)) ?Aj @ inv_sample P nu p U (rng wj)
                                      @ drop (j * (p * p) + p * p) ?Aj),
            rng := snd (columns P nu p (rng wj)),
            trace := trace wj @ draws_trace nu p @ [Dtrmm scCp tmp, Dtrtri tmp]\<rparr>)"
    by (rule rInv_iter_run[OF assms(1) d1 assms(2-3) m1 Tj m2 m3 lA assms(9-11)])
  have t: "take (j * (p * p)) ?Aj = concat (map ?f [0..<j])" using lc by simp
  have d: "drop (j * (p * p) + p * p) ?Aj = drop (Suc j * (p * p)) A"
    using lc by (simp add: add.commute)
  have r: "rng wj = stream_at P nu p j (rng w)" by (simp add: wj_def)
  have mm: "(mem wj)(tmp \<mapsto> X, ansp \<mapsto> Y) = (mem w)(tmp \<mapsto> X, ansp \<mapsto> Y)" for X Y
    by (rule ext) (simp add: wj_def)
  have tr: "trace wj @ draws_trace nu p @ [Dtrmm scCp tmp, Dtrtri tmp]
      = trace w @ concat (replicate (Suc j) (draws_trace nu p @ [Dtrmm scCp tmp, Dtrtri tmp]))"
    by (simp add: wj_def concat_replicate_snoc del: replicate.simps)
  have wjw: "wj\<lparr>mem := M, rng := R, trace := TR\<rparr> = w\<lparr>mem := M, rng := R, trace := TR\<rparr>" for M R TR
    by (simp add: wj_def)
  have cc: "concat (map ?f [0..<Suc j]) = concat (map ?f [0..<j]) @ ?f j"
    by simp
  have "rInv_loop P nu dims scCp tmp ansp (p * p) (Suc j) w
      = rInv_iter P nu dims scCp tmp ansp (p * p) j wj"
    by (simp add: run)
  also have "\<dots> = (Inr (),
          wj\<lparr>mem := (mem w)(tmp \<mapsto> ?f j,
                           ansp \<mapsto> concat (map ?f [0..<j]) @ ?f j @ drop (Suc j * (p * p)) A),
            rng := stream_at P nu p (Suc j) (rng w),
            trace := trace w @ concat (replicate (Suc j) (draws_trace nu p @ [Dtrmm scCp tmp, Dtrtri tmp]))\<rparr>)"
    by (simp only: it t d r mm tr stream_at_Suc)
  also have "\<dots> = (Inr (),
          w\<lparr>mem := (mem w)(tmp \<mapsto> ?f j,
                           ansp \<mapsto> concat (map ?f [0..<Suc j]) @ drop (Suc j * (p * p)) A),
            rng := stream_at P nu p (Suc j) (rng w),
            trace := trace w @ concat (replicate (Suc j) (draws_trace nu p @ [Dtrmm scCp tmp, Dtrtri tmp]))\<rparr>)"
    by (simp only: wjw cc append_assoc)
  finally show ?case by (simp only: nat.case)
qed


lemma rChol_loop_guard:
  assumes "nu < real (dims ! 0) \<or> dims ! 0 = 0"
  shows "rChol_loop P nu dims scCp tmp ansp psqr (Suc j) w = (Inl InvalidDegreesOfFreedom, w)"
proof (induction j)
  case 0
  show ?case using assms by (simp add: rChol_iter_def std_factor_guard)
next
  case (Suc j)
  then show ?case by (simp del: rChol_loop.simps(2) add: rChol_loop.simps(2)[of _ _ _ _ _ _ _ "Suc j"])
qed

lemma rInv_loop_guard:
  assumes "nu < real (dims ! 0) \<or> dims ! 0 = 0"
  shows "rInv_loop P nu dims scCp tmp ansp psqr (Suc j) w = (Inl InvalidDegreesOfFreedom, w)"
proof (induction j)
  case 0
  show ?case using assms by (simp add: rInv_iter_def std_factor_guard)
next
  case (Suc j)
  then show ?case by (simp del: rInv_loop.simps(2) add: rInv_loop.simps(2)[of _ _ _ _ _ _ _ "Suc j"])
qed


section \<open>The entry points in closed form\<close>

lemma setup_steps:
  assumes "live_scale w scal"
  defines "p \<equiv> dims_of scal ! 0"
  shows "\<exists>w1 w2 w3 w4.
      alloc3DArray P p p n w
        = (\<lparr>sxtype = REALSXP, dim_attr = Some [p, p, n], payload = brk w\<rparr>, w1)
    \<and> Calloc_double (p * p) w1 = (Suc (brk w), w2)
    \<and> Calloc_double (p * p) w2 = (Suc (Suc (brk w)), w3)
    \<and> Memcpy_double (Suc (Suc (brk w))) (payload scal) (p * p) w3 = Some w4
    \<and> call_dpotrf P p (Suc (Suc (brk w))) p (memset0 (Suc (brk w)) (p * p) w4)
        = (if p = 0 then (Inl LapackArgument, refused_world P n scal w)
           else (Inr (dpotrf_info P w scal), setup_world P n scal w))"
proof -
  obtain b where b: "mem w (payload scal) = Some b"
    and lb: "p * p \<le> length b"
    and lt: "payload scal < brk w"
    using assms(1) by (auto simp add: live_scale_def p_def split: option.splits)
  have ne: "payload scal \<noteq> brk w" "payload scal \<noteq> Suc (brk w)" "payload scal \<noteq> Suc (Suc (brk w))"
    using lt by simp_all
  define w1 where "w1 = snd (alloc3DArray P p p n w)"
  define w2 where "w2 = snd (Calloc_double (p * p) w1)"
  define w3 where "w3 = snd (Calloc_double (p * p) w2)"
  define w4 where "w4 = w3\<lparr>mem := (mem w3)(Suc (Suc (brk w)) \<mapsto> take (p * p) b),
                           trace := trace w3 @ [Memcpy (Suc (Suc (brk w))) (payload scal) (p * p)]\<rparr>"
  have a1: "alloc3DArray P p p n w
        = (\<lparr>sxtype = REALSXP, dim_attr = Some [p, p, n], payload = brk w\<rparr>, w1)"
    by (simp add: w1_def alloc3DArray_def)
  have f1: "brk w1 = Suc (brk w)" "rng w1 = rng w"
       "trace w1 = trace w @ [Alloc3DArray p p n]"
       "mem w1 = (mem w)(brk w \<mapsto> map (junk P) [0..<p * p * n])"
    by (simp_all add: w1_def alloc3DArray_def)
  have a2: "Calloc_double (p * p) w1 = (Suc (brk w), w2)"
    by (simp add: w2_def Calloc_double_def f1)
  have f2: "brk w2 = Suc (Suc (brk w))" "rng w2 = rng w"
       "trace w2 = trace w @ [Alloc3DArray p p n, Calloc (p * p)]"
       "mem w2 = (mem w)(brk w \<mapsto> map (junk P) [0..<p * p * n],
                         Suc (brk w) \<mapsto> replicate (p * p) 0)"
    by (simp_all add: w2_def Calloc_double_def f1)
  have a3: "Calloc_double (p * p) w2 = (Suc (Suc (brk w)), w3)"
    by (simp add: w3_def Calloc_double_def f2)
  have f3: "brk w3 = Suc (Suc (Suc (brk w)))" "rng w3 = rng w"
       "trace w3 = trace w @ [Alloc3DArray p p n, Calloc (p * p), Calloc (p * p)]"
       "mem w3 = (mem w)(brk w \<mapsto> map (junk P) [0..<p * p * n],
                         Suc (brk w) \<mapsto> replicate (p * p) 0,
                         Suc (Suc (brk w)) \<mapsto> replicate (p * p) 0)"
    by (simp_all add: w3_def Calloc_double_def f2)
  have a4: "Memcpy_double (Suc (Suc (brk w))) (payload scal) (p * p) w3 = Some w4"
    using b lb ne by (simp add: Memcpy_double_def f3 w4_def)
  have f4: "brk w4 = Suc (Suc (Suc (brk w)))" "rng w4 = rng w"
       "trace w4 = trace w @ [Alloc3DArray p p n, Calloc (p * p), Calloc (p * p),
                              Memcpy (Suc (Suc (brk w))) (payload scal) (p * p)]"
       "mem w4 = (mem w)(brk w \<mapsto> map (junk P) [0..<p * p * n],
                         Suc (brk w) \<mapsto> replicate (p * p) 0,
                         Suc (Suc (brk w)) \<mapsto> take (p * p) b)"
    by (simp_all add: w4_def f3)
  have sc: "scale_copy w scal = take (p * p) b"
    by (simp add: scale_copy_def rd_def b p_def)
  have a6: "call_dpotrf P p (Suc (Suc (brk w))) p (memset0 (Suc (brk w)) (p * p) w4)
        = (if p = 0 then (Inl LapackArgument, refused_world P n scal w)
           else (Inr (dpotrf_info P w scal), setup_world P n scal w))"
  proof (cases "p = 0")
    case True
    have "log_event (Dpotrf (Suc (Suc (brk w)))) (memset0 (Suc (brk w)) (p * p) w4)
        = refused_world P n scal w"
    proof (rule world.equality)
      show "mem (log_event (Dpotrf (Suc (Suc (brk w)))) (memset0 (Suc (brk w)) (p * p) w4))
          = mem (refused_world P n scal w)"
        by (rule ext)
          (simp add: memset0_def rd_def wr_def log_event_def f4
            refused_world_def sc p_def[symmetric] True)
    qed (simp_all add: memset0_def rd_def wr_def log_event_def f4
          refused_world_def setup_events_def sc p_def[symmetric] w4_def w3_def
          w2_def w1_def alloc3DArray_def Calloc_double_def True)
    then show ?thesis using True by (simp add: call_dpotrf_def)
  next
    case False
    then have lda: "\<not> p < max (Suc 0) p" by (simp add: max_def)
    have i6: "fst (call_dpotrf P p (Suc (Suc (brk w))) p (memset0 (Suc (brk w)) (p * p) w4))
        = Inr (dpotrf_info P w scal)"
      by (simp add: call_dpotrf_def lda memset0_def rd_def wr_def f4 case_prod_beta
          dpotrf_info_def sc p_def[symmetric])
    have w6: "snd (call_dpotrf P p (Suc (Suc (brk w))) p (memset0 (Suc (brk w)) (p * p) w4))
        = setup_world P n scal w"
      by (rule world.equality)
        (simp_all add: call_dpotrf_def lda memset0_def rd_def wr_def log_event_def f4
          case_prod_beta setup_world_def setup_events_def scale_factor_def sc p_def[symmetric]
          w4_def w3_def w2_def w1_def alloc3DArray_def Calloc_double_def)
    show ?thesis using i6 w6 False by (simp add: prod_eq_iff)
  qed
  show ?thesis using a1 a2 a3 a4 a6 by blast
qed

lemma square_real_dims: "square_real scal \<Longrightarrow> INTEGER_dim scal = Inr (dims_of scal)"
  by (simp add: square_real_def isMatrix_def INTEGER_dim_def dims_of_def split: option.splits)

lemma rChol_setup:
  assumes "square_real scal" "live_scale w scal"
  shows "rCholWishart P ns nu scal w
       = (if dims_of scal ! 0 = 0
          then (Inl LapackArgument, refused_world P (sample_count ns) scal w)
          else if dpotrf_info P w scal \<noteq> 0
          then (Inl NotPositiveDefinite, setup_world P (sample_count ns) scal w)
          else
            (case rChol_loop P nu (dims_of scal) (Suc (Suc (brk w))) (Suc (brk w)) (brk w)
                    (dims_of scal ! 0 * dims_of scal ! 0) (sample_count ns)
                    (log_event GetRNGstate (setup_world P (sample_count ns) scal w)) of
               (Inl e, w8) \<Rightarrow> (Inl e, w8)
             | (Inr u, w8) \<Rightarrow>
                 (Inr \<lparr>sxtype = REALSXP,
                       dim_attr = Some [dims_of scal ! 0, dims_of scal ! 0, sample_count ns],
                       payload = brk w\<rparr>,
                  Free_buf (Suc (brk w)) (Free_buf (Suc (Suc (brk w))) (log_event PutRNGstate w8)))))"
proof -
  obtain w1 w2 w3 w4 where st:
      "alloc3DArray P (dims_of scal ! 0) (dims_of scal ! 0) (sample_count ns) w
        = (\<lparr>sxtype = REALSXP,
            dim_attr = Some [dims_of scal ! 0, dims_of scal ! 0, sample_count ns],
            payload = brk w\<rparr>, w1)"
      "Calloc_double (dims_of scal ! 0 * dims_of scal ! 0) w1 = (Suc (brk w), w2)"
      "Calloc_double (dims_of scal ! 0 * dims_of scal ! 0) w2 = (Suc (Suc (brk w)), w3)"
      "Memcpy_double (Suc (Suc (brk w))) (payload scal) (dims_of scal ! 0 * dims_of scal ! 0) w3
        = Some w4"
    and dp:
      "call_dpotrf P (dims_of scal ! 0) (Suc (Suc (brk w))) (dims_of scal ! 0)
          (memset0 (Suc (brk w)) (dims_of scal ! 0 * dims_of scal ! 0) w4)
        = (if dims_of scal ! 0 = 0
           then (Inl LapackArgument, refused_world P (sample_count ns) scal w)
           else (Inr (dpotrf_info P w scal), setup_world P (sample_count ns) scal w))"
    using setup_steps[OF assms(2), of P "sample_count ns"] by blast
  have sq: "isMatrix scal" "isReal scal" "dims_of scal ! 0 = dims_of scal ! 1"
    using assms(1) by (simp_all add: square_real_def)
  have t: "\<not> (\<not> isMatrix scal \<or> \<not> isReal scal \<or> dims_of scal ! 0 \<noteq> dims_of scal ! 1)"
    using sq by simp
  show ?thesis
  proof (cases "dims_of scal ! 0 = 0")
    case True
    have dp0: "call_dpotrf P (dims_of scal ! 0) (Suc (Suc (brk w))) (dims_of scal ! 0)
          (memset0 (Suc (brk w)) (dims_of scal ! 0 * dims_of scal ! 0) w4)
        = (Inl LapackArgument, refused_world P (sample_count ns) scal w)"
      using dp by (simp only: if_P[OF True])
    have "rCholWishart P ns nu scal w
        = (Inl LapackArgument, refused_world P (sample_count ns) scal w)"
      using t
      by (simp only: rCholWishart_def square_real_dims[OF assms(1)] sum.case Let_def st dp0
          if_False prod.case option.case sexp.simps)
    then show ?thesis by (simp only: if_P[OF True])
  next
    case False
    have dp1: "call_dpotrf P (dims_of scal ! 0) (Suc (Suc (brk w))) (dims_of scal ! 0)
          (memset0 (Suc (brk w)) (dims_of scal ! 0 * dims_of scal ! 0) w4)
        = (Inr (dpotrf_info P w scal), setup_world P (sample_count ns) scal w)"
      using dp by (simp only: if_not_P[OF False])
    show ?thesis
      using t
      by (simp only: rCholWishart_def square_real_dims[OF assms(1)] sum.case Let_def st dp1 False
          if_False prod.case option.case sexp.simps)
  qed
qed

lemma rInv_setup:
  assumes "square_real scal" "live_scale w scal"
  shows "rInvCholWishart P ns nu scal w
       = (if dims_of scal ! 0 = 0
          then (Inl LapackArgument, refused_world P (sample_count ns) scal w)
          else if dpotrf_info P w scal \<noteq> 0
          then (Inl NotPositiveDefinite, setup_world P (sample_count ns) scal w)
          else
            (case rInv_loop P nu (dims_of scal) (Suc (Suc (brk w))) (Suc (brk w)) (brk w)
                    (dims_of scal ! 0 * dims_of scal ! 0) (sample_count ns)
                    (log_event GetRNGstate (setup_world P (sample_count ns) scal w)) of
               (Inl e, w8) \<Rightarrow> (Inl e, w8)
             | (Inr u, w8) \<Rightarrow>
                 (Inr \<lparr>sxtype = REALSXP,
                       dim_attr = Some [dims_of scal ! 0, dims_of scal ! 0, sample_count ns],
                       payload = brk w\<rparr>,
                  Free_buf (Suc (brk w)) (Free_buf (Suc (Suc (brk w))) (log_event PutRNGstate w8)))))"
proof -
  obtain w1 w2 w3 w4 where st:
      "alloc3DArray P (dims_of scal ! 0) (dims_of scal ! 0) (sample_count ns) w
        = (\<lparr>sxtype = REALSXP,
            dim_attr = Some [dims_of scal ! 0, dims_of scal ! 0, sample_count ns],
            payload = brk w\<rparr>, w1)"
      "Calloc_double (dims_of scal ! 0 * dims_of scal ! 0) w1 = (Suc (brk w), w2)"
      "Calloc_double (dims_of scal ! 0 * dims_of scal ! 0) w2 = (Suc (Suc (brk w)), w3)"
      "Memcpy_double (Suc (Suc (brk w))) (payload scal) (dims_of scal ! 0 * dims_of scal ! 0) w3
        = Some w4"
    and dp:
      "call_dpotrf P (dims_of scal ! 0) (Suc (Suc (brk w))) (dims_of scal ! 0)
          (memset0 (Suc (brk w)) (dims_of scal ! 0 * dims_of scal ! 0) w4)
        = (if dims_of scal ! 0 = 0
           then (Inl LapackArgument, refused_world P (sample_count ns) scal w)
           else (Inr (dpotrf_info P w scal), setup_world P (sample_count ns) scal w))"
    using setup_steps[OF assms(2), of P "sample_count ns"] by blast
  have sq: "isMatrix scal" "isReal scal" "dims_of scal ! 0 = dims_of scal ! 1"
    using assms(1) by (simp_all add: square_real_def)
  have t: "\<not> (\<not> isMatrix scal \<or> \<not> isReal scal \<or> dims_of scal ! 0 \<noteq> dims_of scal ! 1)"
    using sq by simp
  show ?thesis
  proof (cases "dims_of scal ! 0 = 0")
    case True
    have dp0: "call_dpotrf P (dims_of scal ! 0) (Suc (Suc (brk w))) (dims_of scal ! 0)
          (memset0 (Suc (brk w)) (dims_of scal ! 0 * dims_of scal ! 0) w4)
        = (Inl LapackArgument, refused_world P (sample_count ns) scal w)"
      using dp by (simp only: if_P[OF True])
    have "rInvCholWishart P ns nu scal w
        = (Inl LapackArgument, refused_world P (sample_count ns) scal w)"
      using t
      by (simp only: rInvCholWishart_def square_real_dims[OF assms(1)] sum.case Let_def st dp0
          if_False prod.case option.case sexp.simps)
    then show ?thesis by (simp only: if_P[OF True])
  next
    case False
    have dp1: "call_dpotrf P (dims_of scal ! 0) (Suc (Suc (brk w))) (dims_of scal ! 0)
          (memset0 (Suc (brk w)) (dims_of scal ! 0 * dims_of scal ! 0) w4)
        = (Inr (dpotrf_info P w scal), setup_world P (sample_count ns) scal w)"
      using dp by (simp only: if_not_P[OF False])
    show ?thesis
      using t
      by (simp only: rInvCholWishart_def square_real_dims[OF assms(1)] sum.case Let_def st dp1 False
          if_False prod.case option.case sexp.simps)
  qed
qed



lemma rChol_run:
  assumes "square_real scal" "live_scale w scal" "dpotrf_info P w scal = 0"
    and "0 < dims_of scal ! 0" "real (dims_of scal ! 0) \<le> nu"
  shows "rCholWishart P ns nu scal w
       = (Inr \<lparr>sxtype = REALSXP,
               dim_attr = Some [dims_of scal ! 0, dims_of scal ! 0, sample_count ns],
               payload = brk w\<rparr>,
          w\<lparr>mem := (mem w)(brk w \<mapsto> concat (map (\<lambda>s. chol_sample P nu (dims_of scal ! 0)
                                         (scale_factor P w scal)
                                         (stream_at P nu (dims_of scal ! 0) s (rng w)))
                                       [0..<sample_count ns]),
                           Suc (brk w) := None, Suc (Suc (brk w)) := None),
            brk := Suc (Suc (Suc (brk w))),
            rng := stream_at P nu (dims_of scal ! 0) (sample_count ns) (rng w),
            trace := trace w @ setup_events (dims_of scal ! 0) (sample_count ns) (brk w) (payload scal)
                     @ [GetRNGstate]
                     @ concat (replicate (sample_count ns)
                         (draws_trace nu (dims_of scal ! 0) @ [Dtrmm (Suc (Suc (brk w))) (Suc (brk w))]))
                     @ [PutRNGstate, Free (Suc (Suc (brk w))), Free (Suc (brk w))]\<rparr>)"
proof -
  let ?p = "dims_of scal ! 0" and ?n = "sample_count ns"
  let ?A = "map (junk P) [0..<?p * ?p * ?n]"
  let ?f = "\<lambda>s. chol_sample P nu ?p (scale_factor P w scal) (stream_at P nu ?p s (rng w))"
  let ?ev = "draws_trace nu ?p @ [Dtrmm (Suc (Suc (brk w))) (Suc (brk w))]"
  define w7 where "w7 = log_event GetRNGstate (setup_world P ?n scal w)"
  have m1: "mem w7 (Suc (brk w)) = Some (replicate (?p * ?p) 0)"
    by (simp add: w7_def log_event_def setup_world_def)
  have l1: "length (replicate (?p * ?p) (0::real)) = ?p * ?p" by simp
  have m2: "mem w7 (Suc (Suc (brk w))) = Some (scale_factor P w scal)"
    by (simp add: w7_def log_event_def setup_world_def)
  have m3: "mem w7 (brk w) = Some ?A"
    by (simp add: w7_def log_event_def setup_world_def)
  have lA: "?n * (?p * ?p) \<le> length ?A" by (simp add: mult.commute)
  have d1: "Suc (brk w) \<noteq> Suc (Suc (brk w))" and d2: "Suc (brk w) \<noteq> brk w"
    and d3: "Suc (Suc (brk w)) \<noteq> brk w" by simp_all
  have r7: "rng w7 = rng w" by (simp add: w7_def log_event_def setup_world_def)
  define w8 where "w8 =
          w7\<lparr>mem := (mem w7)(Suc (brk w) \<mapsto> (case ?n of 0 \<Rightarrow> replicate (?p * ?p) 0 | Suc k \<Rightarrow> ?f k),
                           brk w \<mapsto> concat (map ?f [0..<?n]) @ drop (?n * (?p * ?p)) ?A),
            rng := stream_at P nu ?p ?n (rng w),
            trace := trace w7 @ concat (replicate ?n ?ev)\<rparr>"
  have loop: "rChol_loop P nu (dims_of scal) (Suc (Suc (brk w))) (Suc (brk w)) (brk w) (?p * ?p) ?n w7
       = (Inr (), w8)"
    using rChol_loop_run[OF refl assms(4) assms(5) m1 l1 m2 m3 lA d1 d2 d3 order_refl, of P]
    unfolding w8_def r7 .
  have dr: "drop (?n * (?p * ?p)) ?A = []" by (simp add: mult.commute)
  have fin: "Free_buf (Suc (brk w)) (Free_buf (Suc (Suc (brk w))) (log_event PutRNGstate w8))
      = w\<lparr>mem := (mem w)(brk w \<mapsto> concat (map ?f [0..<?n]),
                           Suc (brk w) := None, Suc (Suc (brk w)) := None),
            brk := Suc (Suc (Suc (brk w))),
            rng := stream_at P nu ?p ?n (rng w),
            trace := trace w @ setup_events ?p ?n (brk w) (payload scal)
                     @ [GetRNGstate] @ concat (replicate ?n ?ev)
                     @ [PutRNGstate, Free (Suc (Suc (brk w))), Free (Suc (brk w))]\<rparr>"
  proof (rule world.equality)
    show "mem (Free_buf (Suc (brk w)) (Free_buf (Suc (Suc (brk w))) (log_event PutRNGstate w8)))
        = mem (w\<lparr>mem := (mem w)(brk w \<mapsto> concat (map ?f [0..<?n]),
                           Suc (brk w) := None, Suc (Suc (brk w)) := None),
            brk := Suc (Suc (Suc (brk w))),
            rng := stream_at P nu ?p ?n (rng w),
            trace := trace w @ setup_events ?p ?n (brk w) (payload scal)
                     @ [GetRNGstate] @ concat (replicate ?n ?ev)
                     @ [PutRNGstate, Free (Suc (Suc (brk w))), Free (Suc (brk w))]\<rparr>)"
      by (rule ext)
        (simp add: Free_buf_def log_event_def w8_def w7_def setup_world_def dr)
  qed (simp_all add: Free_buf_def log_event_def w8_def w7_def setup_world_def)
  show ?thesis
    using assms(4)
    by (simp only: rChol_setup[OF assms(1) assms(2)] assms(3) w7_def[symmetric] loop
        prod.case sum.case fin) simp
qed

lemma rInv_run:
  assumes "square_real scal" "live_scale w scal" "dpotrf_info P w scal = 0"
    and "0 < dims_of scal ! 0" "real (dims_of scal ! 0) \<le> nu"
  shows "rInvCholWishart P ns nu scal w
       = (Inr \<lparr>sxtype = REALSXP,
               dim_attr = Some [dims_of scal ! 0, dims_of scal ! 0, sample_count ns],
               payload = brk w\<rparr>,
          w\<lparr>mem := (mem w)(brk w \<mapsto> concat (map (\<lambda>s. inv_sample P nu (dims_of scal ! 0)
                                         (scale_factor P w scal)
                                         (stream_at P nu (dims_of scal ! 0) s (rng w)))
                                       [0..<sample_count ns]),
                           Suc (brk w) := None, Suc (Suc (brk w)) := None),
            brk := Suc (Suc (Suc (brk w))),
            rng := stream_at P nu (dims_of scal ! 0) (sample_count ns) (rng w),
            trace := trace w @ setup_events (dims_of scal ! 0) (sample_count ns) (brk w) (payload scal)
                     @ [GetRNGstate]
                     @ concat (replicate (sample_count ns)
                         (draws_trace nu (dims_of scal ! 0) @ [Dtrmm (Suc (Suc (brk w))) (Suc (brk w)), Dtrtri (Suc (brk w))]))
                     @ [PutRNGstate, Free (Suc (Suc (brk w))), Free (Suc (brk w))]\<rparr>)"
proof -
  let ?p = "dims_of scal ! 0" and ?n = "sample_count ns"
  let ?A = "map (junk P) [0..<?p * ?p * ?n]"
  let ?f = "\<lambda>s. inv_sample P nu ?p (scale_factor P w scal) (stream_at P nu ?p s (rng w))"
  let ?ev = "draws_trace nu ?p @ [Dtrmm (Suc (Suc (brk w))) (Suc (brk w)), Dtrtri (Suc (brk w))]"
  define w7 where "w7 = log_event GetRNGstate (setup_world P ?n scal w)"
  have m1: "mem w7 (Suc (brk w)) = Some (replicate (?p * ?p) 0)"
    by (simp add: w7_def log_event_def setup_world_def)
  have l1: "length (replicate (?p * ?p) (0::real)) = ?p * ?p" by simp
  have m2: "mem w7 (Suc (Suc (brk w))) = Some (scale_factor P w scal)"
    by (simp add: w7_def log_event_def setup_world_def)
  have m3: "mem w7 (brk w) = Some ?A"
    by (simp add: w7_def log_event_def setup_world_def)
  have lA: "?n * (?p * ?p) \<le> length ?A" by (simp add: mult.commute)
  have d1: "Suc (brk w) \<noteq> Suc (Suc (brk w))" and d2: "Suc (brk w) \<noteq> brk w"
    and d3: "Suc (Suc (brk w)) \<noteq> brk w" by simp_all
  have sq1: "dims_of scal ! 1 = dims_of scal ! 0"
    using assms(1) by (simp add: square_real_def)
  have r7: "rng w7 = rng w" by (simp add: w7_def log_event_def setup_world_def)
  define w8 where "w8 =
          w7\<lparr>mem := (mem w7)(Suc (brk w) \<mapsto> (case ?n of 0 \<Rightarrow> replicate (?p * ?p) 0 | Suc k \<Rightarrow> ?f k),
                           brk w \<mapsto> concat (map ?f [0..<?n]) @ drop (?n * (?p * ?p)) ?A),
            rng := stream_at P nu ?p ?n (rng w),
            trace := trace w7 @ concat (replicate ?n ?ev)\<rparr>"
  have loop: "rInv_loop P nu (dims_of scal) (Suc (Suc (brk w))) (Suc (brk w)) (brk w) (?p * ?p) ?n w7
       = (Inr (), w8)"
    using rInv_loop_run[OF refl assms(4) assms(5) m1 l1 m2 m3 lA d1 d2 d3 sq1 order_refl, of P]
    unfolding w8_def r7 .
  have dr: "drop (?n * (?p * ?p)) ?A = []" by (simp add: mult.commute)
  have fin: "Free_buf (Suc (brk w)) (Free_buf (Suc (Suc (brk w))) (log_event PutRNGstate w8))
      = w\<lparr>mem := (mem w)(brk w \<mapsto> concat (map ?f [0..<?n]),
                           Suc (brk w) := None, Suc (Suc (brk w)) := None),
            brk := Suc (Suc (Suc (brk w))),
            rng := stream_at P nu ?p ?n (rng w),
            trace := trace w @ setup_events ?p ?n (brk w) (payload scal)
                     @ [GetRNGstate] @ concat (replicate ?n ?ev)
                     @ [PutRNGstate, Free (Suc (Suc (brk w))), Free (Suc (brk w))]\<rparr>"
  proof (rule world.equality)
    show "mem (Free_buf (Suc (brk w)) (Free_buf (Suc (Suc (brk w))) (log_event PutRNGstate w8)))
        = mem (w\<lparr>mem := (mem w)(brk w \<mapsto> concat (map ?f [0..<?n]),
                           Suc (brk w) := None, Suc (Suc (brk w)) := None),
            brk := Suc (Suc (Suc (brk w))),
            rng := stream_at P nu ?p ?n (rng w),
            trace := trace w @ setup_events ?p ?n (brk w) (payload scal)
                     @ [GetRNGstate] @ concat (replicate ?n ?ev)
                     @ [PutRNGstate, Free (Suc (Suc (brk w))), Free (Suc (brk w))]\<rparr>)"
      by (rule ext)
        (simp add: Free_buf_def log_event_def w8_def w7_def setup_world_def dr)
  qed (simp_all add: Free_buf_def log_event_def w8_def w7_def setup_world_def)
  show ?thesis
    using assms(4)
    by (simp only: rInv_setup[OF assms(1) assms(2)] assms(3) w7_def[symmetric] loop
        prod.case sum.case fin) simp
qed

lemma sample_count_pos: "\<exists>k. sample_count ns = Suc k"
  by (cases "ns \<le> 0") (auto simp add: sample_count_def intro: exI[of _ 0] exI[of _ "nat ns - 1"])

lemma sample_count_max: "sample_count ns = nat (max 1 ns)"
  by (simp add: sample_count_def max_def)

lemma rChol_guard_run:
  assumes "square_real scal" "live_scale w scal" "dpotrf_info P w scal = 0"
    and "0 < dims_of scal ! 0" "nu < real (dims_of scal ! 0)"
  shows "rCholWishart P ns nu scal w
       = (Inl InvalidDegreesOfFreedom,
          log_event GetRNGstate (setup_world P (sample_count ns) scal w))"
proof -
  obtain k where k: "sample_count ns = Suc k" using sample_count_pos by blast
  have g: "nu < real (dims_of scal ! 0) \<or> dims_of scal ! 0 = 0" using assms(5) by simp
  show ?thesis
    using assms(4)
    by (simp only: rChol_setup[OF assms(1) assms(2)] assms(3) k rChol_loop_guard[OF g]
        prod.case sum.case) simp
qed

lemma rInv_guard_run:
  assumes "square_real scal" "live_scale w scal" "dpotrf_info P w scal = 0"
    and "0 < dims_of scal ! 0" "nu < real (dims_of scal ! 0)"
  shows "rInvCholWishart P ns nu scal w
       = (Inl InvalidDegreesOfFreedom,
          log_event GetRNGstate (setup_world P (sample_count ns) scal w))"
proof -
  obtain k where k: "sample_count ns = Suc k" using sample_count_pos by blast
  have g: "nu < real (dims_of scal ! 0) \<or> dims_of scal ! 0 = 0" using assms(5) by simp
  show ?thesis
    using assms(4)
    by (simp only: rInv_setup[OF assms(1) assms(2)] assms(3) k rInv_loop_guard[OF g]
        prod.case sum.case) simp
qed

lemma rChol_npd_run:
  assumes "square_real scal" "live_scale w scal" "dpotrf_info P w scal \<noteq> 0"
    and "0 < dims_of scal ! 0"
  shows "rCholWishart P ns nu scal w
       = (Inl NotPositiveDefinite, setup_world P (sample_count ns) scal w)"
  using assms(3,4) by (simp add: rChol_setup[OF assms(1) assms(2)])

lemma rChol_refused_run:
  assumes "square_real scal" "live_scale w scal" "dims_of scal ! 0 = 0"
  shows "rCholWishart P ns nu scal w
       = (Inl LapackArgument, refused_world P (sample_count ns) scal w)"
  using assms(3) by (simp add: rChol_setup[OF assms(1) assms(2)])

lemma rInv_npd_run:
  assumes "square_real scal" "live_scale w scal" "dpotrf_info P w scal \<noteq> 0"
    and "0 < dims_of scal ! 0"
  shows "rInvCholWishart P ns nu scal w
       = (Inl NotPositiveDefinite, setup_world P (sample_count ns) scal w)"
  using assms(3,4) by (simp add: rInv_setup[OF assms(1) assms(2)])

lemma rInv_refused_run:
  assumes "square_real scal" "live_scale w scal" "dims_of scal ! 0 = 0"
  shows "rInvCholWishart P ns nu scal w
       = (Inl LapackArgument, refused_world P (sample_count ns) scal w)"
  using assms(3) by (simp add: rInv_setup[OF assms(1) assms(2)])

lemma rChol_shape_run:
  "dim_attr scal \<noteq> None \<Longrightarrow> \<not> square_real scal
     \<Longrightarrow> rCholWishart P ns nu scal w = (Inl InvalidShape, w)"
  by (auto simp add: rCholWishart_def square_real_def Let_def INTEGER_dim_def dims_of_def)

lemma rChol_nodim_run:
  "dim_attr scal = None \<Longrightarrow> rCholWishart P ns nu scal w = (Inl IntegerOfNull, w)"
  by (simp add: rCholWishart_def INTEGER_dim_def)

lemma rInv_shape_run:
  "dim_attr scal \<noteq> None \<Longrightarrow> \<not> square_real scal
     \<Longrightarrow> rInvCholWishart P ns nu scal w = (Inl InvalidShape, w)"
  by (auto simp add: rInvCholWishart_def square_real_def Let_def INTEGER_dim_def dims_of_def)

lemma rInv_nodim_run:
  "dim_attr scal = None \<Longrightarrow> rInvCholWishart P ns nu scal w = (Inl IntegerOfNull, w)"
  by (simp add: rInvCholWishart_def INTEGER_dim_def)

text \<open>The ways a call can go.\<close>

lemma run_cases:
  obtains (nodim) "dim_attr scal = None"
    | (shape) "dim_attr scal \<noteq> None" "\<not> square_real scal"
    | (oob) "square_real scal" "\<not> live_scale w scal"
    | (refused) "square_real scal" "live_scale w scal" "dims_of scal ! 0 = 0"
    | (npd) "square_real scal" "live_scale w scal" "dpotrf_info P w scal \<noteq> 0"
        "0 < dims_of scal ! 0"
    | (guard) "square_real scal" "live_scale w scal" "dpotrf_info P w scal = 0"
        "0 < dims_of scal ! 0" "nu < real (dims_of scal ! 0)"
    | (ok) "square_real scal" "live_scale w scal" "dpotrf_info P w scal = 0"
        "0 < dims_of scal ! 0" "real (dims_of scal ! 0) \<le> nu"
  by fastforce

lemma square_real_has_dim: "square_real scal \<Longrightarrow> dim_attr scal \<noteq> None"
  by (auto simp add: square_real_def isMatrix_def split: option.splits)

lemma setup_world_frame:
  "a < brk w \<Longrightarrow> mem (setup_world P n scal w) a = mem w a"
  by (simp add: setup_world_def)

lemma refused_world_frame:
  "a < brk w \<Longrightarrow> mem (refused_world P n scal w) a = mem w a"
  by (simp add: refused_world_def)

lemma added_setup_world:
  "added w (setup_world P n scal w) = setup_events (dims_of scal ! 0) n (brk w) (payload scal)"
  by (simp add: added_def setup_world_def)

lemma added_refused_world:
  "added w (refused_world P n scal w) = setup_events (dims_of scal ! 0) n (brk w) (payload scal)"
  by (simp add: added_def refused_world_def)

lemma added_log_setup_world:
  "added w (log_event e (setup_world P n scal w))
     = setup_events (dims_of scal ! 0) n (brk w) (payload scal) @ [e]"
  by (simp add: added_def setup_world_def log_event_def)


lemma refused_world_rng: "rng (refused_world P n scal w) = rng w"
  by (simp add: refused_world_def)

section \<open>Sample count\<close>

lemma ref_valid_2:
  "square_real (real_matrix 2 2)"
  "live_scale (world_of [1, 0, 0, 1] tape) (real_matrix 2 2)"
  "dpotrf_info ref_prims (world_of [1, 0, 0, 1] tape) (real_matrix 2 2) = 0"
  "dims_of (real_matrix 2 2) ! 0 = 2"
  by (simp_all add: square_real_def isMatrix_def isVector_def isReal_def real_matrix_def
      dims_of_def live_scale_def world_of_def dpotrf_info_def scale_copy_def rd_def
      ref_prims_def ref_dpotrf_def chol_pivot_def upt_rec chol_u.simps)

text \<open>
  Claim C7. Whatever integer is requested as the sample count, a call on a valid input
  (a square real scale matrix of dimension \<open>p \<ge> 1\<close> whose factorisation succeeds,
  \<open>nu \<ge> p\<close>) returns: a count of zero or below is not rejected. The array returned by
  either entry point has the extents \<open>p\<close>, \<open>p\<close> and \<open>max 1 ns\<close>, and its payload
  holds \<open>max 1 ns\<close> matrices of \<open>p * p\<close> entries.
\<close>

theorem output_count_is_max_one:
  assumes "square_real scal" "live_scale w scal" "dpotrf_info P w scal = 0"
    and "1 \<le> dims_of scal ! 0" "real (dims_of scal ! 0) \<le> nu"
  shows "(\<exists>a w'. rCholWishart P ns nu scal w = (Inr a, w')
            \<and> dim_attr a = Some [dims_of scal ! 0, dims_of scal ! 0, nat (max 1 ns)]
            \<and> length (rd w' (payload a)) = nat (max 1 ns) * (dims_of scal ! 0 * dims_of scal ! 0))
       \<and> (\<exists>a w'. rInvCholWishart P ns nu scal w = (Inr a, w')
            \<and> dim_attr a = Some [dims_of scal ! 0, dims_of scal ! 0, nat (max 1 ns)]
            \<and> length (rd w' (payload a)) = nat (max 1 ns) * (dims_of scal ! 0 * dims_of scal ! 0))"
proof -
  have p: "0 < dims_of scal ! 0" using assms(4) by simp
  have c: "length (concat (map (\<lambda>s. chol_sample P nu (dims_of scal ! 0) (scale_factor P w scal)
              (stream_at P nu (dims_of scal ! 0) s (rng w))) [0..<sample_count ns]))
         = sample_count ns * (dims_of scal ! 0 * dims_of scal ! 0)"
    by (rule length_concat_samples) simp
  have i: "length (concat (map (\<lambda>s. inv_sample P nu (dims_of scal ! 0) (scale_factor P w scal)
              (stream_at P nu (dims_of scal ! 0) s (rng w))) [0..<sample_count ns]))
         = sample_count ns * (dims_of scal ! 0 * dims_of scal ! 0)"
    by (rule length_concat_samples) simp
  show ?thesis
    by (simp add: rChol_run[OF assms(1-3) p assms(5)] rInv_run[OF assms(1-3) p assms(5)]
        rd_def c[unfolded sample_count_max] i[unfolded sample_count_max] sample_count_max)
qed

theorem output_count_is_max_one_witness:
  "square_real (real_matrix 2 2)
   \<and> live_scale (world_of [1, 0, 0, 1] [4, 9, 1 / 2]) (real_matrix 2 2)
   \<and> dpotrf_info ref_prims (world_of [1, 0, 0, 1] [4, 9, 1 / 2]) (real_matrix 2 2) = 0
   \<and> 1 \<le> dims_of (real_matrix 2 2) ! 0
   \<and> real (dims_of (real_matrix 2 2) ! 0) \<le> 5
   \<and> (\<exists>a w'. rCholWishart ref_prims (- 3) 5 (real_matrix 2 2) (world_of [1, 0, 0, 1] [4, 9, 1 / 2])
                 = (Inr a, w')
            \<and> dim_attr a = Some [2, 2, 1] \<and> length (rd w' (payload a)) = 4)
   \<and> (\<exists>a w'. rInvCholWishart ref_prims 0 5 (real_matrix 2 2) (world_of [1, 0, 0, 1] [4, 9, 1 / 2])
                 = (Inr a, w')
            \<and> dim_attr a = Some [2, 2, 1] \<and> length (rd w' (payload a)) = 4)"
  using output_count_is_max_one[OF ref_valid_2(1) ref_valid_2(2)[of "[4, 9, 1 / 2]"]
      ref_valid_2(3)[of "[4, 9, 1 / 2]"], where nu = 5 and ns = "- 3"]
    output_count_is_max_one[OF ref_valid_2(1) ref_valid_2(2)[of "[4, 9, 1 / 2]"]
      ref_valid_2(3)[of "[4, 9, 1 / 2]"], where nu = 5 and ns = 0]
    ref_valid_2(1) ref_valid_2(2)[of "[4, 9, 1 / 2]"] ref_valid_2(3)[of "[4, 9, 1 / 2]"]
    ref_valid_2(4)
  by simp

section \<open>Triangular outputs\<close>

lemma index_div_mod:
  fixes p :: nat
  assumes "i < p"
  shows "(i + k * p) mod p = i" "(i + k * p) div p = k"
  using assms by simp_all

lemma lower_zero_bartlett: "lower_zero p (bartlett P nu p True r)"
proof -
  have "bartlett P nu p True r ! (i + k * p) = 0" if "k < p" "i < p" "k < i" for i k
  proof -
    have "i + k * p < p * p" using index_bound[OF that(2) that(1)] .
    then show ?thesis
      using that by (simp add: bartlett_def index_div_mod bartlett_entry_def)
  qed
  then show ?thesis by (simp add: lower_zero_def)
qed

lemma lower_zero_chol_sample:
  "dtrmm_keeps_zeros P \<Longrightarrow> lower_zero p (chol_sample P nu p U r)"
  using lower_zero_bartlett[of p P nu r]
  by (simp add: chol_sample_def Let_def dtrmm_keeps_zeros_def)

lemma lower_zero_inv_sample:
  assumes "dtrmm_keeps_zeros P" "dtrtri_keeps_lower P"
  shows "lower_zero p (inv_sample P nu p U r)"
proof -
  let ?X = "chol_sample P nu p U r"
  have x: "lower_zero p ?X" by (rule lower_zero_chol_sample[OF assms(1)])
  have "inplace ?X (snd (dtrtri P p ?X p)) ! (i + k * p) = 0"
    if "k < p" "i < p" "k < i" for i k
  proof -
    have "inplace ?X (snd (dtrtri P p ?X p)) ! (i + k * p) = ?X ! (i + k * p)"
      using assms(2) that by (simp add: dtrtri_keeps_lower_def)
    also have "\<dots> = 0" using x that by (simp add: lower_zero_def)
    finally show ?thesis .
  qed
  then show ?thesis by (simp add: lower_zero_def inv_sample_def Let_def)
qed

lemma slot_concat:
  assumes "\<And>s. length (f s) = p * p" "s < n"
  shows "slot p s (concat (map f [0..<n])) = f s"
  using assms(2)
proof (induction n)
  case 0
  then show ?case by simp
next
  case (Suc n)
  have l: "length (concat (map f [0..<n])) = n * (p * p)"
    by (rule length_concat_samples) (rule assms(1))
  show ?case
  proof (cases "s = n")
    case True
    then show ?thesis by (simp add: slot_def l assms(1))
  next
    case False
    then have sn: "s < n" using Suc.prems by simp
    have "s * (p * p) + p * p \<le> n * (p * p)"
      using sn by (metis Suc_leI mult_Suc mult_le_mono1 add.commute)
    then have "slot p s (concat (map f [0..<Suc n])) = slot p s (concat (map f [0..<n]))"
      by (simp add: slot_def l)
    then show ?thesis using Suc.IH[OF sn] by simp
  qed
qed

text \<open>
  Claim C6. On a valid input (a square real scale matrix of dimension \<open>p \<ge> 1\<close> whose
  factorisation succeeds, \<open>nu \<ge> p\<close>), with routines that behave as documented, every
  one of the \<open>max 1 ns\<close> matrices of the array that \<open>rCholWishart\<close> returns is
  upper-triangular, every entry below the diagonal being exactly \<open>0\<close>, and so is every
  matrix \<open>rInvCholWishart\<close> returns; nothing of the uninitialised contents of the
  array (\<open>junk\<close>) is left in them.
\<close>

theorem outputs_upper_triangular:
  assumes "square_real scal" "live_scale w scal" "dpotrf_info P w scal = 0"
    and "1 \<le> dims_of scal ! 0" "real (dims_of scal ! 0) \<le> nu"
    and "dtrmm_keeps_zeros P" "dtrtri_keeps_lower P"
  shows "(\<exists>a w'. rCholWishart P ns nu scal w = (Inr a, w')
            \<and> (\<forall>s<sample_count ns. lower_zero (dims_of scal ! 0)
                   (slot (dims_of scal ! 0) s (rd w' (payload a)))))
       \<and> (\<exists>a w'. rInvCholWishart P ns nu scal w = (Inr a, w')
            \<and> (\<forall>s<sample_count ns. lower_zero (dims_of scal ! 0)
                   (slot (dims_of scal ! 0) s (rd w' (payload a)))))"
proof -
  let ?p = "dims_of scal ! 0"
  have p: "0 < ?p" using assms(4) by simp
  have c: "slot ?p s (concat (map (\<lambda>s. chol_sample P nu ?p (scale_factor P w scal)
              (stream_at P nu ?p s (rng w))) [0..<sample_count ns]))
         = chol_sample P nu ?p (scale_factor P w scal) (stream_at P nu ?p s (rng w))"
    if "s < sample_count ns" for s
    by (rule slot_concat[OF _ that]) simp
  have i: "slot ?p s (concat (map (\<lambda>s. inv_sample P nu ?p (scale_factor P w scal)
              (stream_at P nu ?p s (rng w))) [0..<sample_count ns]))
         = inv_sample P nu ?p (scale_factor P w scal) (stream_at P nu ?p s (rng w))"
    if "s < sample_count ns" for s
    by (rule slot_concat[OF _ that]) simp
  show ?thesis
    by (simp add: rChol_run[OF assms(1-3) p assms(5)] rInv_run[OF assms(1-3) p assms(5)]
        rd_def c i lower_zero_chol_sample[OF assms(6)]
        lower_zero_inv_sample[OF assms(6) assms(7)])
qed


lemma inplace_same_length: "length new = length old \<Longrightarrow> inplace old new = new"
  by (simp add: inplace_def)

lemma sum_list_all_zero:
  fixes f :: "'a \<Rightarrow> real"
  shows "(\<And>x. x \<in> set xs \<Longrightarrow> f x = 0) \<Longrightarrow> (\<Sum>x\<leftarrow>xs. f x) = 0"
  by (induction xs) simp_all

lemma ref_dtrmm_keeps_zeros: "dtrmm_keeps_zeros ref_prims"
proof -
  have "inplace B (ref_dtrmm p p 1 A p B p) ! (i + k * p) = 0"
    if B: "length B = p * p" "lower_zero p B" and ik: "k < p" "i < p" "k < i" for p A B i k
  proof -
    have idx: "i + k * p < length B" using index_bound[OF ik(2) ik(1)] B(1) by simp
    have z: "B ! (i + kk * p) * A ! (kk + k * p) = 0" if "kk \<in> set [0..<Suc k]" for kk
    proof -
      have "kk \<le> k" using that by auto
      then have "kk < p" "kk < i" using ik by linarith+
      then have "B ! (i + kk * p) = 0" using B(2) ik(2) by (simp add: lower_zero_def)
      then show ?thesis by simp
    qed
    have s: "(\<Sum>kk\<leftarrow>[0..<Suc k]. B ! (i + kk * p) * A ! (kk + k * p)) = 0"
      by (rule sum_list_all_zero) (rule z)
    have "inplace B (ref_dtrmm p p 1 A p B p) = ref_dtrmm p p 1 A p B p"
      by (rule inplace_same_length) (simp add: ref_dtrmm_def)
    then show ?thesis
      using idx ik s by (simp add: ref_dtrmm_def index_div_mod Let_def del: upt_Suc)
  qed
  then show ?thesis by (simp add: dtrmm_keeps_zeros_def lower_zero_def ref_prims_def)
qed

lemma ref_dtrtri_keeps_lower: "dtrtri_keeps_lower ref_prims"
proof -
  have "inplace A (snd (ref_dtrtri p A p)) ! (i + k * p) = A ! (i + k * p)"
    if A: "length A = p * p" and ik: "k < p" "i < p" "k < i" for p A i k
  proof -
    have idx: "i + k * p < length A" using index_bound[OF ik(2) ik(1)] A by simp
    have l: "length (snd (ref_dtrtri p A p)) = length A"
      by (simp add: ref_dtrtri_def split: option.splits)
    have "snd (ref_dtrtri p A p) ! (i + k * p) = A ! (i + k * p)"
      using idx ik by (simp add: ref_dtrtri_def index_div_mod Let_def split: option.splits)
    then show ?thesis by (simp add: inplace_same_length[OF l])
  qed
  then show ?thesis by (simp add: dtrtri_keeps_lower_def ref_prims_def)
qed


lemma sqrt_4_9: "sqrt 4 = 2" "sqrt 9 = 3" "sqrt 16 = 4"
  using real_sqrt_abs[of 2] real_sqrt_abs[of 3] real_sqrt_abs[of 4] by simp_all

lemma upt_small: "[0..<4] = [0, 1, 2, 3::nat]" "[0..<2] = [0, 1::nat]" "[0..<1] = [0::nat]"
  "[1..<2] = [1::nat]" "[2..<2] = ([]::nat list)" "[0..<0] = ([]::nat list)"
  by (simp_all add: upt_rec)

lemma ref_prims_sel:
  "rchisq ref_prims = tape_rchisq" "norm_rand ref_prims = tape_norm_rand"
  "dpotrf ref_prims = ref_dpotrf" "dtrmm ref_prims = ref_dtrmm"
  "dtrtri ref_prims = ref_dtrtri" "junk ref_prims = (\<lambda>i. 7)"
  by (simp_all add: ref_prims_def)

lemma ref_chol_u_id:
  "chol_u [1, 0, 0, 1] 2 0 0 = 1" "chol_u [1, 0, 0, 1] 2 0 (Suc 0) = 0"
  "chol_u [1, 0, 0, 1] 2 (Suc 0) (Suc 0) = 1"
proof -
  show a: "chol_u [1, 0, 0, 1] 2 0 0 = 1" by (simp add: chol_u.simps[of _ _ 0 0])
  show b: "chol_u [1, 0, 0, 1] 2 0 (Suc 0) = 0"
    by (simp add: chol_u.simps[of _ _ 0 "Suc 0"] a)
  show "chol_u [1, 0, 0, 1] 2 (Suc 0) (Suc 0) = 1"
    by (simp add: chol_u.simps[of _ _ "Suc 0" "Suc 0"] b upt_small)
qed

lemma ref_dpotrf_id: "ref_dpotrf 2 [1, 0, 0, 1] 2 = (0, [1, 0, 0, 1])"
  by (simp add: ref_dpotrf_def chol_pivot_def upt_small ref_chol_u_id)

lemma ref_scale_factor_2:
  "scale_factor ref_prims (world_of [1, 0, 0, 1] tape) (real_matrix 2 2) = [1, 0, 0, 1]"
  by (simp add: scale_factor_def scale_copy_def rd_def world_of_def real_matrix_def dims_of_def
      ref_prims_sel ref_dpotrf_id inplace_def)

lemma ref_columns_2:
  "a \<noteq> 0 \<Longrightarrow> b \<noteq> 0 \<Longrightarrow>
   columns ref_prims 5 2 (a # b # c # tape) = ([(\<bar>a\<bar>, []), (\<bar>b\<bar>, [c])], tape)"
  by (simp add: numeral_2_eq_2 column_draws_def ref_prims_sel tape_rchisq_def tape_norm_rand_def)

lemma ref_bartlett_2:
  "a \<noteq> 0 \<Longrightarrow> b \<noteq> 0 \<Longrightarrow>
   bartlett ref_prims 5 2 True (a # b # c # tape) = [sqrt \<bar>a\<bar>, 0, c, sqrt \<bar>b\<bar>]"
  by (simp add: bartlett_def ref_columns_2 bartlett_entry_def upt_small)

lemma ref_dtrmm_id:
  "ref_dtrmm 2 2 1 [1, 0, 0, 1] 2 [a, b, c, d] 2 = [a, b, c, d]"
  by (simp add: ref_dtrmm_def upt_small)

lemma ref_chol_sample_2:
  "a \<noteq> 0 \<Longrightarrow> b \<noteq> 0 \<Longrightarrow>
   chol_sample ref_prims 5 2 [1, 0, 0, 1] (a # b # c # tape) = [sqrt \<bar>a\<bar>, 0, c, sqrt \<bar>b\<bar>]"
  by (simp add: chol_sample_def ref_bartlett_2 inplace_def ref_prims_sel ref_dtrmm_id)

lemma ref_tri_inv_2:
  "tri_inv [a, b, c, d] 2 0 0 = 1 / a" "tri_inv [a, b, c, d] 2 (Suc 0) (Suc 0) = 1 / d"
  "tri_inv [a, b, c, d] 2 0 (Suc 0) = - (c * (1 / d)) / a"
proof -
  show "tri_inv [a, b, c, d] 2 0 0 = 1 / a" by (simp add: tri_inv.simps[of _ _ 0 0])
  show e: "tri_inv [a, b, c, d] 2 (Suc 0) (Suc 0) = 1 / d"
    by (simp add: tri_inv.simps[of _ _ "Suc 0" "Suc 0"])
  show "tri_inv [a, b, c, d] 2 0 (Suc 0) = - (c * (1 / d)) / a"
    by (simp add: tri_inv.simps[of _ _ 0 "Suc 0"] e upt_small)
qed

lemma ref_dtrtri_2:
  "a \<noteq> 0 \<Longrightarrow> d \<noteq> 0 \<Longrightarrow>
   ref_dtrtri 2 [a, b, c, d] 2 = (0, [1 / a, b, - (c * (1 / d)) / a, 1 / d])"
  by (simp add: ref_dtrtri_def upt_small ref_tri_inv_2)

lemma ref_inv_sample_2:
  "a \<noteq> 0 \<Longrightarrow> b \<noteq> 0 \<Longrightarrow>
   inv_sample ref_prims 5 2 [1, 0, 0, 1] (a # b # c # tape)
     = [1 / sqrt \<bar>a\<bar>, 0, - (c * (1 / sqrt \<bar>b\<bar>)) / sqrt \<bar>a\<bar>, 1 / sqrt \<bar>b\<bar>]"
  by (simp add: inv_sample_def ref_chol_sample_2 Let_def inplace_def ref_prims_sel ref_dtrtri_2)


lemma ref_stream_2:
  "stream_at ref_prims 5 2 0 tape = tape"
  "a \<noteq> 0 \<Longrightarrow> b \<noteq> 0 \<Longrightarrow> stream_at ref_prims 5 2 (Suc 0) (a # b # c # tape) = tape"
  by (simp_all add: stream_at_def ref_columns_2)

lemma world_of_sel:
  "rng (world_of b tape) = tape" "brk (world_of b tape) = 1" "trace (world_of b tape) = []"
  by (simp_all add: world_of_def)

lemma ref_valid_2_more:
  "0 < dims_of (real_matrix 2 2) ! 0" "1 \<le> dims_of (real_matrix 2 2) ! 0"
  "real (dims_of (real_matrix 2 2) ! 0) \<le> 5"
  by (simp_all add: ref_valid_2(4))

lemma ref_run_chol_2:
  "rd (snd (rCholWishart ref_prims 2 5 (real_matrix 2 2)
              (world_of [1, 0, 0, 1] [4, 9, 1 / 2, 1, 16, 2])))
      (payload (projr (fst (rCholWishart ref_prims 2 5 (real_matrix 2 2)
              (world_of [1, 0, 0, 1] [4, 9, 1 / 2, 1, 16, 2])))))
   = [2, 0, 1 / 2, 3, 1, 0, 2, 4]"
  by (simp add: rChol_run[OF ref_valid_2(1-3) ref_valid_2_more(1,3)] ref_valid_2(4)
      rd_def sample_count_def upt_small ref_scale_factor_2 world_of_sel
      ref_stream_2 ref_chol_sample_2 sqrt_4_9)

lemma ref_run_inv_2:
  "rd (snd (rInvCholWishart ref_prims 2 5 (real_matrix 2 2)
              (world_of [1, 0, 0, 1] [4, 9, 1 / 2, 1, 16, 2])))
      (payload (projr (fst (rInvCholWishart ref_prims 2 5 (real_matrix 2 2)
              (world_of [1, 0, 0, 1] [4, 9, 1 / 2, 1, 16, 2])))))
   = [1 / 2, 0, - 1 / 12, 1 / 3, 1, 0, - 1 / 2, 1 / 4]"
  by (simp add: rInv_run[OF ref_valid_2(1-3) ref_valid_2_more(1,3)] ref_valid_2(4)
      rd_def sample_count_def upt_small ref_scale_factor_2 world_of_sel
      ref_stream_2 ref_inv_sample_2 sqrt_4_9)

theorem outputs_upper_triangular_witness:
  "square_real (real_matrix 2 2)
   \<and> live_scale (world_of [1, 0, 0, 1] [4, 9, 1 / 2, 1, 16, 2]) (real_matrix 2 2)
   \<and> dpotrf_info ref_prims (world_of [1, 0, 0, 1] [4, 9, 1 / 2, 1, 16, 2]) (real_matrix 2 2) = 0
   \<and> 1 \<le> dims_of (real_matrix 2 2) ! 0
   \<and> real (dims_of (real_matrix 2 2) ! 0) \<le> 5
   \<and> dtrmm_keeps_zeros ref_prims \<and> dtrtri_keeps_lower ref_prims
   \<and> (\<exists>a w'. rCholWishart ref_prims 2 5 (real_matrix 2 2)
                  (world_of [1, 0, 0, 1] [4, 9, 1 / 2, 1, 16, 2]) = (Inr a, w')
          \<and> rd w' (payload a) = [2, 0, 1 / 2, 3, 1, 0, 2, 4]
          \<and> lower_zero 2 (slot 2 0 (rd w' (payload a)))
          \<and> lower_zero 2 (slot 2 1 (rd w' (payload a))))
   \<and> (\<exists>a w'. rInvCholWishart ref_prims 2 5 (real_matrix 2 2)
                  (world_of [1, 0, 0, 1] [4, 9, 1 / 2, 1, 16, 2]) = (Inr a, w')
          \<and> rd w' (payload a) = [1 / 2, 0, - 1 / 12, 1 / 3, 1, 0, - 1 / 2, 1 / 4]
          \<and> lower_zero 2 (slot 2 0 (rd w' (payload a)))
          \<and> lower_zero 2 (slot 2 1 (rd w' (payload a))))"
proof -
  have n: "sample_count 2 = 2" by (simp add: sample_count_def)
  note v2 = ref_valid_2(2)[of "[4, 9, 1 / 2, 1, 16, 2]"]
  note v3 = ref_valid_2(3)[of "[4, 9, 1 / 2, 1, 16, 2]"]
  show ?thesis
    using outputs_upper_triangular[OF ref_valid_2(1) v2 v3 ref_valid_2_more(2,3)
        ref_dtrmm_keeps_zeros ref_dtrtri_keeps_lower, of 2]
      ref_run_chol_2 ref_run_inv_2 ref_valid_2(1) v2 v3 ref_valid_2_more(2,3)
      ref_dtrmm_keeps_zeros ref_dtrtri_keeps_lower
    by (auto simp add: n ref_valid_2(4))
qed

section \<open>Inverse mode against normal mode\<close>

text \<open>
  Claim C5. Called with the same arguments in the same world (the same stream state),
  the two entry points fail together, with the same error, or return together; when
  they return, the arrays have the same extents, the stream is left in the same state,
  and matrix \<open>s\<close> of the array of \<open>rInvCholWishart\<close> is what \<^verbatim>\<open>dtrtri\<close>, applied in
  place, makes of matrix \<open>s\<close> of the array of \<open>rCholWishart\<close>, for every draw index
  \<open>s\<close>.
\<close>

theorem inverse_is_inverted_factor:
  assumes "square_real scal \<longrightarrow> live_scale w scal"
  shows "(\<forall>e. fst (rCholWishart P ns nu scal w) = Inl e
              \<longleftrightarrow> fst (rInvCholWishart P ns nu scal w) = Inl e)
       \<and> (\<forall>a w1. rCholWishart P ns nu scal w = (Inr a, w1) \<longrightarrow>
            (\<exists>a' w2. rInvCholWishart P ns nu scal w = (Inr a', w2)
               \<and> dim_attr a' = dim_attr a \<and> rng w2 = rng w1
               \<and> (\<forall>s<sample_count ns.
                     let X = slot (dims_of scal ! 0) s (rd w1 (payload a))
                     in slot (dims_of scal ! 0) s (rd w2 (payload a'))
                        = inplace X (snd (dtrtri P (dims_of scal ! 0) X (dims_of scal ! 0))))))"
proof -
  let ?p = "dims_of scal ! 0"
  show ?thesis
  proof (cases rule: run_cases[where scal = scal and w = w and P = P and nu = nu])
    case nodim
    then show ?thesis by (simp add: rChol_nodim_run rInv_nodim_run)
  next
    case shape
    then show ?thesis by (simp add: rChol_shape_run rInv_shape_run)
  next
    case oob
    then show ?thesis using assms by simp
  next
    case refused
    then show ?thesis by (simp add: rChol_refused_run rInv_refused_run)
  next
    case npd
    then show ?thesis by (simp add: rChol_npd_run rInv_npd_run)
  next
    case guard
    then show ?thesis by (simp add: rChol_guard_run rInv_guard_run)
  next
    case ok
    have c: "slot ?p s (concat (map (\<lambda>s. chol_sample P nu ?p (scale_factor P w scal)
                (stream_at P nu ?p s (rng w))) [0..<sample_count ns]))
           = chol_sample P nu ?p (scale_factor P w scal) (stream_at P nu ?p s (rng w))"
      if "s < sample_count ns" for s
      by (rule slot_concat[OF _ that]) simp
    have i: "slot ?p s (concat (map (\<lambda>s. inv_sample P nu ?p (scale_factor P w scal)
                (stream_at P nu ?p s (rng w))) [0..<sample_count ns]))
           = inv_sample P nu ?p (scale_factor P w scal) (stream_at P nu ?p s (rng w))"
      if "s < sample_count ns" for s
      by (rule slot_concat[OF _ that]) simp
    show ?thesis
      by (simp add: rChol_run[OF ok] rInv_run[OF ok]
          rd_def c i[unfolded inv_sample_def Let_def] Let_def inv_sample_def)
  qed
qed


theorem inverse_is_inverted_factor_witness:
  "live_scale (world_of [1, 0, 0, 1] [4, 9, 1 / 2, 1, 16, 2]) (real_matrix 2 2)
   \<and> (\<exists>a w1 a' w2.
         rCholWishart ref_prims 2 5 (real_matrix 2 2)
           (world_of [1, 0, 0, 1] [4, 9, 1 / 2, 1, 16, 2]) = (Inr a, w1)
       \<and> rInvCholWishart ref_prims 2 5 (real_matrix 2 2)
           (world_of [1, 0, 0, 1] [4, 9, 1 / 2, 1, 16, 2]) = (Inr a', w2)
       \<and> dim_attr a' = dim_attr a \<and> rng w2 = rng w1
       \<and> rd w1 (payload a) = [2, 0, 1 / 2, 3, 1, 0, 2, 4]
       \<and> rd w2 (payload a') = [1 / 2, 0, - 1 / 12, 1 / 3, 1, 0, - 1 / 2, 1 / 4]
       \<and> slot 2 1 (rd w2 (payload a'))
           = inplace (slot 2 1 (rd w1 (payload a)))
               (snd (dtrtri ref_prims 2 (slot 2 1 (rd w1 (payload a))) 2)))"
proof -
  note v2 = ref_valid_2(2)[of "[4, 9, 1 / 2, 1, 16, 2]"]
  note v3 = ref_valid_2(3)[of "[4, 9, 1 / 2, 1, 16, 2]"]
  let ?W = "world_of [1, 0, 0, 1] [4, 9, 1 / 2, 1, 16, 2]"
  obtain a w1 where c: "rCholWishart ref_prims 2 5 (real_matrix 2 2) ?W = (Inr a, w1)"
    using rChol_run[OF ref_valid_2(1) v2 v3 ref_valid_2_more(1,3), of 2] by simp
  have n: "(1::nat) < sample_count 2" by (simp add: sample_count_def)
  have h: "square_real (real_matrix 2 2) \<longrightarrow> live_scale ?W (real_matrix 2 2)"
    using v2 by simp
  from inverse_is_inverted_factor[OF h, of ref_prims 2 5] c
  obtain a' w2 where i: "rInvCholWishart ref_prims 2 5 (real_matrix 2 2) ?W = (Inr a', w2)"
    and d: "dim_attr a' = dim_attr a" "rng w2 = rng w1"
    and s: "\<forall>s<sample_count 2.
                     let X = slot (dims_of (real_matrix 2 2) ! 0) s (rd w1 (payload a))
                     in slot (dims_of (real_matrix 2 2) ! 0) s (rd w2 (payload a'))
                        = inplace X (snd (dtrtri ref_prims (dims_of (real_matrix 2 2) ! 0) X
                             (dims_of (real_matrix 2 2) ! 0)))"
    by blast
  have s1: "slot 2 1 (rd w2 (payload a'))
           = inplace (slot 2 1 (rd w1 (payload a)))
               (snd (dtrtri ref_prims 2 (slot 2 1 (rd w1 (payload a))) 2))"
    using s n by (simp add: Let_def ref_valid_2(4))
  have r1: "rd w1 (payload a) = [2, 0, 1 / 2, 3, 1, 0, 2, 4]"
    using ref_run_chol_2 c by simp
  have r2: "rd w2 (payload a') = [1 / 2, 0, - 1 / 12, 1 / 3, 1, 0, - 1 / 2, 1 / 4]"
    using ref_run_inv_2 i by simp
  show ?thesis using v2 c i d s1 r1 r2 by blast
qed

section \<open>The caller's scale matrix\<close>

lemma oob_steps:
  assumes "payload scal < brk w" "\<not> live_scale w scal"
  defines "p \<equiv> dims_of scal ! 0"
  shows "\<exists>w1 w2 w3.
      alloc3DArray P p p n w
        = (\<lparr>sxtype = REALSXP, dim_attr = Some [p, p, n], payload = brk w\<rparr>, w1)
    \<and> Calloc_double (p * p) w1 = (Suc (brk w), w2)
    \<and> Calloc_double (p * p) w2 = (Suc (Suc (brk w)), w3)
    \<and> Memcpy_double (Suc (Suc (brk w))) (payload scal) (p * p) w3 = None
    \<and> mem w3 (payload scal) = mem w (payload scal)
    \<and> added w w3 = [Alloc3DArray p p n, Calloc (p * p), Calloc (p * p)]"
proof -
  have ne: "payload scal \<noteq> brk w" "payload scal \<noteq> Suc (brk w)" "payload scal \<noteq> Suc (Suc (brk w))"
    using assms(1) by simp_all
  define w1 where "w1 = snd (alloc3DArray P p p n w)"
  define w2 where "w2 = snd (Calloc_double (p * p) w1)"
  define w3 where "w3 = snd (Calloc_double (p * p) w2)"
  have a1: "alloc3DArray P p p n w
        = (\<lparr>sxtype = REALSXP, dim_attr = Some [p, p, n], payload = brk w\<rparr>, w1)"
    by (simp add: w1_def alloc3DArray_def)
  have f1: "brk w1 = Suc (brk w)"
       "trace w1 = trace w @ [Alloc3DArray p p n]"
       "mem w1 = (mem w)(brk w \<mapsto> map (junk P) [0..<p * p * n])"
    by (simp_all add: w1_def alloc3DArray_def)
  have a2: "Calloc_double (p * p) w1 = (Suc (brk w), w2)"
    by (simp add: w2_def Calloc_double_def f1)
  have f2: "brk w2 = Suc (Suc (brk w))"
       "trace w2 = trace w @ [Alloc3DArray p p n, Calloc (p * p)]"
       "mem w2 = (mem w)(brk w \<mapsto> map (junk P) [0..<p * p * n],
                         Suc (brk w) \<mapsto> replicate (p * p) 0)"
    by (simp_all add: w2_def Calloc_double_def f1)
  have a3: "Calloc_double (p * p) w2 = (Suc (Suc (brk w)), w3)"
    by (simp add: w3_def Calloc_double_def f2)
  have f3: "trace w3 = trace w @ [Alloc3DArray p p n, Calloc (p * p), Calloc (p * p)]"
       "mem w3 = (mem w)(brk w \<mapsto> map (junk P) [0..<p * p * n],
                         Suc (brk w) \<mapsto> replicate (p * p) 0,
                         Suc (Suc (brk w)) \<mapsto> replicate (p * p) 0)"
    by (simp_all add: w3_def Calloc_double_def f2)
  have m: "mem w3 (payload scal) = mem w (payload scal)" using ne by (simp add: f3)
  have a4: "Memcpy_double (Suc (Suc (brk w))) (payload scal) (p * p) w3 = None"
    using assms(1,2) m
    by (auto simp add: Memcpy_double_def f3 live_scale_def p_def split: option.splits)
  have t: "added w w3 = [Alloc3DArray p p n, Calloc (p * p), Calloc (p * p)]"
    by (simp add: added_def f3)
  show ?thesis using a1 a2 a3 a4 m t by blast
qed

lemma rChol_oob_run:
  assumes "square_real scal" "payload scal < brk w" "\<not> live_scale w scal"
  shows "\<exists>w3. rCholWishart P ns nu scal w = (Inl OutOfBounds, w3)
            \<and> mem w3 (payload scal) = mem w (payload scal)
            \<and> added w w3 = [Alloc3DArray (dims_of scal ! 0) (dims_of scal ! 0) (sample_count ns),
                 Calloc (dims_of scal ! 0 * dims_of scal ! 0),
                 Calloc (dims_of scal ! 0 * dims_of scal ! 0)]"
proof -
  obtain w1 w2 w3 where st:
      "alloc3DArray P (dims_of scal ! 0) (dims_of scal ! 0) (sample_count ns) w
        = (\<lparr>sxtype = REALSXP,
            dim_attr = Some [dims_of scal ! 0, dims_of scal ! 0, sample_count ns],
            payload = brk w\<rparr>, w1)"
      "Calloc_double (dims_of scal ! 0 * dims_of scal ! 0) w1 = (Suc (brk w), w2)"
      "Calloc_double (dims_of scal ! 0 * dims_of scal ! 0) w2 = (Suc (Suc (brk w)), w3)"
      "Memcpy_double (Suc (Suc (brk w))) (payload scal) (dims_of scal ! 0 * dims_of scal ! 0) w3
        = None"
    and m: "mem w3 (payload scal) = mem w (payload scal)"
      "added w w3 = [Alloc3DArray (dims_of scal ! 0) (dims_of scal ! 0) (sample_count ns),
                 Calloc (dims_of scal ! 0 * dims_of scal ! 0),
                 Calloc (dims_of scal ! 0 * dims_of scal ! 0)]"
    using oob_steps[OF assms(2) assms(3), of P "sample_count ns"] by blast
  have sq: "isMatrix scal" "isReal scal" "dims_of scal ! 0 = dims_of scal ! 1"
    using assms(1) by (simp_all add: square_real_def)
  have "\<not> (\<not> isMatrix scal \<or> \<not> isReal scal \<or> dims_of scal ! 0 \<noteq> dims_of scal ! 1)"
    using sq by simp
  then have "rCholWishart P ns nu scal w = (Inl OutOfBounds, w3)"
    by (simp only: rCholWishart_def square_real_dims[OF assms(1)] sum.case Let_def st if_False
        prod.case option.case sexp.simps)
  then show ?thesis using m by blast
qed

lemma rInv_oob_run:
  assumes "square_real scal" "payload scal < brk w" "\<not> live_scale w scal"
  shows "\<exists>w3. rInvCholWishart P ns nu scal w = (Inl OutOfBounds, w3)
            \<and> mem w3 (payload scal) = mem w (payload scal)
            \<and> added w w3 = [Alloc3DArray (dims_of scal ! 0) (dims_of scal ! 0) (sample_count ns),
                 Calloc (dims_of scal ! 0 * dims_of scal ! 0),
                 Calloc (dims_of scal ! 0 * dims_of scal ! 0)]"
proof -
  obtain w1 w2 w3 where st:
      "alloc3DArray P (dims_of scal ! 0) (dims_of scal ! 0) (sample_count ns) w
        = (\<lparr>sxtype = REALSXP,
            dim_attr = Some [dims_of scal ! 0, dims_of scal ! 0, sample_count ns],
            payload = brk w\<rparr>, w1)"
      "Calloc_double (dims_of scal ! 0 * dims_of scal ! 0) w1 = (Suc (brk w), w2)"
      "Calloc_double (dims_of scal ! 0 * dims_of scal ! 0) w2 = (Suc (Suc (brk w)), w3)"
      "Memcpy_double (Suc (Suc (brk w))) (payload scal) (dims_of scal ! 0 * dims_of scal ! 0) w3
        = None"
    and m: "mem w3 (payload scal) = mem w (payload scal)"
      "added w w3 = [Alloc3DArray (dims_of scal ! 0) (dims_of scal ! 0) (sample_count ns),
                 Calloc (dims_of scal ! 0 * dims_of scal ! 0),
                 Calloc (dims_of scal ! 0 * dims_of scal ! 0)]"
    using oob_steps[OF assms(2) assms(3), of P "sample_count ns"] by blast
  have sq: "isMatrix scal" "isReal scal" "dims_of scal ! 0 = dims_of scal ! 1"
    using assms(1) by (simp_all add: square_real_def)
  have "\<not> (\<not> isMatrix scal \<or> \<not> isReal scal \<or> dims_of scal ! 0 \<noteq> dims_of scal ! 1)"
    using sq by simp
  then have "rInvCholWishart P ns nu scal w = (Inl OutOfBounds, w3)"
    by (simp only: rInvCholWishart_def square_real_dims[OF assms(1)] sum.case Let_def st if_False
        prod.case option.case sexp.simps)
  then show ?thesis using m by blast
qed

lemma rChol_frame:
  assumes "payload scal < brk w"
  shows "mem (snd (rCholWishart P ns nu scal w)) (payload scal) = mem w (payload scal)"
proof (cases rule: run_cases[where scal = scal and w = w and P = P and nu = nu])
  case nodim
  then show ?thesis by (simp add: rChol_nodim_run)
next
  case shape
  then show ?thesis by (simp add: rChol_shape_run)
next
  case oob
  then show ?thesis using rChol_oob_run[OF oob(1) assms oob(2), of P ns nu] by auto
next
  case refused
  then show ?thesis by (simp add: rChol_refused_run refused_world_frame[OF assms])
next
  case npd
  then show ?thesis by (simp add: rChol_npd_run setup_world_frame[OF assms])
next
  case guard
  then show ?thesis
    by (simp add: rChol_guard_run log_event_def setup_world_frame[OF assms])
next
  case ok
  then show ?thesis using assms by (simp add: rChol_run)
qed

lemma rInv_frame:
  assumes "payload scal < brk w"
  shows "mem (snd (rInvCholWishart P ns nu scal w)) (payload scal) = mem w (payload scal)"
proof (cases rule: run_cases[where scal = scal and w = w and P = P and nu = nu])
  case nodim
  then show ?thesis by (simp add: rInv_nodim_run)
next
  case shape
  then show ?thesis by (simp add: rInv_shape_run)
next
  case oob
  then show ?thesis using rInv_oob_run[OF oob(1) assms oob(2), of P ns nu] by auto
next
  case refused
  then show ?thesis by (simp add: rInv_refused_run refused_world_frame[OF assms])
next
  case npd
  then show ?thesis by (simp add: rInv_npd_run setup_world_frame[OF assms])
next
  case guard
  then show ?thesis
    by (simp add: rInv_guard_run log_event_def setup_world_frame[OF assms])
next
  case ok
  then show ?thesis using assms by (simp add: rInv_run)
qed

lemma rChol_starts_with_setup:
  assumes "square_real scal" "live_scale w scal"
  shows "take 5 (added w (snd (rCholWishart P ns nu scal w)))
       = setup_events (dims_of scal ! 0) (sample_count ns) (brk w) (payload scal)"
proof (cases rule: run_cases[where scal = scal and w = w and P = P and nu = nu])
  case refused
  then show ?thesis
    by (simp add: rChol_refused_run added_refused_world) (simp add: setup_events_def)
next
  case npd
  then show ?thesis by (simp add: rChol_npd_run added_setup_world) (simp add: setup_events_def)
next
  case guard
  then show ?thesis
    by (simp add: rChol_guard_run added_log_setup_world) (simp add: setup_events_def)
next
  case ok
  then show ?thesis by (simp add: rChol_run added_def) (simp add: setup_events_def)
qed (use assms square_real_has_dim in simp_all)

lemma rInv_starts_with_setup:
  assumes "square_real scal" "live_scale w scal"
  shows "take 5 (added w (snd (rInvCholWishart P ns nu scal w)))
       = setup_events (dims_of scal ! 0) (sample_count ns) (brk w) (payload scal)"
proof (cases rule: run_cases[where scal = scal and w = w and P = P and nu = nu])
  case refused
  then show ?thesis
    by (simp add: rInv_refused_run added_refused_world) (simp add: setup_events_def)
next
  case npd
  then show ?thesis by (simp add: rInv_npd_run added_setup_world) (simp add: setup_events_def)
next
  case guard
  then show ?thesis
    by (simp add: rInv_guard_run added_log_setup_world) (simp add: setup_events_def)
next
  case ok
  then show ?thesis by (simp add: rInv_run added_def) (simp add: setup_events_def)
qed (use assms square_real_has_dim in simp_all)

text \<open>
  Claim C9. Whatever the arguments and on every way out of either entry point, the
  buffer of the caller's scale matrix (any buffer allocated before the call) holds
  after the call what it held before. When the scale argument is a square real matrix
  in a live buffer, the first five events of the call are the allocation of the output
  array, of \<^verbatim>\<open>tmp\<close> and of \<^verbatim>\<open>scCp\<close>, the copy of the scale matrix into \<^verbatim>\<open>scCp\<close>, and
  then \<^verbatim>\<open>dpotrf\<close> on \<^verbatim>\<open>scCp\<close>, a fresh buffer that is not the caller's.
\<close>

theorem scale_matrix_unchanged:
  assumes "payload scal < brk w"
  shows "mem (snd (rCholWishart P ns nu scal w)) (payload scal) = mem w (payload scal)
       \<and> mem (snd (rInvCholWishart P ns nu scal w)) (payload scal) = mem w (payload scal)
       \<and> (square_real scal \<and> live_scale w scal \<longrightarrow>
            take 5 (added w (snd (rCholWishart P ns nu scal w)))
              = [Alloc3DArray (dims_of scal ! 0) (dims_of scal ! 0) (sample_count ns),
                 Calloc (dims_of scal ! 0 * dims_of scal ! 0),
                 Calloc (dims_of scal ! 0 * dims_of scal ! 0),
                 Memcpy (Suc (Suc (brk w))) (payload scal) (dims_of scal ! 0 * dims_of scal ! 0),
                 Dpotrf (Suc (Suc (brk w)))]
          \<and> take 5 (added w (snd (rInvCholWishart P ns nu scal w)))
              = [Alloc3DArray (dims_of scal ! 0) (dims_of scal ! 0) (sample_count ns),
                 Calloc (dims_of scal ! 0 * dims_of scal ! 0),
                 Calloc (dims_of scal ! 0 * dims_of scal ! 0),
                 Memcpy (Suc (Suc (brk w))) (payload scal) (dims_of scal ! 0 * dims_of scal ! 0),
                 Dpotrf (Suc (Suc (brk w)))]
          \<and> Suc (Suc (brk w)) \<noteq> payload scal)"
  using assms rChol_frame[OF assms, of P ns nu] rInv_frame[OF assms, of P ns nu]
    rChol_starts_with_setup[of scal w P ns nu] rInv_starts_with_setup[of scal w P ns nu]
  by (simp add: setup_events_def)

theorem scale_matrix_unchanged_witness:
  "payload (real_matrix 2 2) < brk (world_of [1, 0, 0, 1] [4, 9, 1 / 2, 1, 16, 2])
   \<and> square_real (real_matrix 2 2)
   \<and> live_scale (world_of [1, 0, 0, 1] [4, 9, 1 / 2, 1, 16, 2]) (real_matrix 2 2)
   \<and> mem (snd (rCholWishart ref_prims 2 5 (real_matrix 2 2)
                  (world_of [1, 0, 0, 1] [4, 9, 1 / 2, 1, 16, 2]))) 0 = Some [1, 0, 0, 1]
   \<and> mem (snd (rInvCholWishart ref_prims 2 5 (real_matrix 2 2)
                  (world_of [1, 0, 0, 1] [4, 9, 1 / 2, 1, 16, 2]))) 0 = Some [1, 0, 0, 1]
   \<and> take 5 (added (world_of [1, 0, 0, 1] [4, 9, 1 / 2, 1, 16, 2])
               (snd (rCholWishart ref_prims 2 5 (real_matrix 2 2)
                  (world_of [1, 0, 0, 1] [4, 9, 1 / 2, 1, 16, 2]))))
       = [Alloc3DArray 2 2 2, Calloc 4, Calloc 4, Memcpy 3 0 4, Dpotrf 3]
   \<and> take 5 (added (world_of [1, 0, 0, 1] [4, 9, 1 / 2, 1, 16, 2])
               (snd (rInvCholWishart ref_prims 2 5 (real_matrix 2 2)
                  (world_of [1, 0, 0, 1] [4, 9, 1 / 2, 1, 16, 2]))))
       = [Alloc3DArray 2 2 2, Calloc 4, Calloc 4, Memcpy 3 0 4, Dpotrf 3]"
proof -
  let ?W = "world_of [1, 0, 0, 1] [4, 9, 1 / 2, 1, 16, 2]"
  have h: "payload (real_matrix 2 2) < brk ?W"
    by (simp add: real_matrix_def world_of_def)
  have n: "sample_count 2 = 2" by (simp add: sample_count_def)
  have e: "payload (real_matrix 2 2) = 0" "brk ?W = 1" "mem ?W 0 = Some [1, 0, 0, 1]"
    by (simp_all add: real_matrix_def world_of_def)
  show ?thesis
    using scale_matrix_unchanged[OF h, of ref_prims 2 5] h ref_valid_2(1)
      ref_valid_2(2)[of "[4, 9, 1 / 2, 1, 16, 2]"]
    by (simp add: n e ref_valid_2(4))
qed

section \<open>Degrees of freedom below the dimension\<close>



lemma not_square_2x3: "\<not> square_real (real_matrix 2 3)"
  by (simp add: square_real_def real_matrix_def dims_of_def)


lemma has_dim_2x3: "dim_attr (real_matrix 2 3) \<noteq> None"
  by (simp add: real_matrix_def)

lemma sample_count_small: "sample_count 1 = 1" "sample_count 2 = 2" "sample_count 3 = 3"
  "sample_count 0 = 1" "sample_count (- 1) = 1"
  by (simp_all add: sample_count_def)




section \<open>The bracket around the draws\<close>

lemma rng_view_append: "rng_view (a @ b) = rng_view a @ rng_view b"
  by (simp add: rng_view_def)

lemma added_same: "added w w = []"
  by (simp add: added_def)

lemma rng_view_Nil: "rng_view [] = []"
  by (simp add: rng_view_def)

lemma rng_view_Cons:
  "rng_view (e # t) = (if is_rng_event e then e # rng_view t else rng_view t)"
  by (simp add: rng_view_def)

lemma rng_view_draws: "rng_view (draws_trace nu p) = draws_trace nu p"
proof -
  have "\<forall>e \<in> set (draws_trace nu p). is_rng_event e"
    by (auto simp add: draws_trace_def)
  then show ?thesis by (simp add: rng_view_def)
qed

lemma rng_view_setup: "rng_view (setup_events p n a0 src) = []"
  by (simp add: rng_view_def setup_events_def)

lemma rng_view_samples:
  "rng_view x = [] \<Longrightarrow>
   rng_view (concat (replicate n (draws_trace nu p @ x))) = concat (replicate n (draws_trace nu p))"
  by (induction n) (simp_all add: rng_view_append rng_view_draws rng_view_Nil)

text \<open>
  Claim C3, as the code has it. What a call does to the random stream, read off the
  events it adds to the log: a call that returns has called \<open>GetRNGstate\<close> once, then
  made the draws of its \<open>max 1 ns\<close> samples, then called \<open>PutRNGstate\<close> once. A call
  that fails never calls \<open>PutRNGstate\<close>: when the guard of \<open>std_rWishart_factor\<close>
  fails, in the first iteration, the bracket has been opened and no draw made; every
  other failure comes before \<open>GetRNGstate\<close>.
\<close>

theorem rng_bracket_closed_only_on_return:
  assumes "payload scal < brk w"
  shows "rng_view (added w (snd (rCholWishart P ns nu scal w)))
           = (case fst (rCholWishart P ns nu scal w) of
                Inr a \<Rightarrow> GetRNGstate
                          # concat (replicate (sample_count ns) (draws_trace nu (dims_of scal ! 0)))
                          @ [PutRNGstate]
              | Inl e \<Rightarrow> if e = InvalidDegreesOfFreedom then [GetRNGstate] else [])
       \<and> rng_view (added w (snd (rInvCholWishart P ns nu scal w)))
           = (case fst (rInvCholWishart P ns nu scal w) of
                Inr a \<Rightarrow> GetRNGstate
                          # concat (replicate (sample_count ns) (draws_trace nu (dims_of scal ! 0)))
                          @ [PutRNGstate]
              | Inl e \<Rightarrow> if e = InvalidDegreesOfFreedom then [GetRNGstate] else [])"
proof (cases rule: run_cases[where scal = scal and w = w and P = P and nu = nu])
  case nodim
  then show ?thesis by (simp add: rChol_nodim_run rInv_nodim_run added_def rng_view_def)
next
  case shape
  then show ?thesis by (simp add: rChol_shape_run rInv_shape_run added_def rng_view_def)
next
  case refused
  then show ?thesis
    by (simp add: rChol_refused_run rInv_refused_run added_refused_world rng_view_setup)
next
  case oob
  obtain w3 where c: "rCholWishart P ns nu scal w = (Inl OutOfBounds, w3)"
    "added w w3 = [Alloc3DArray (dims_of scal ! 0) (dims_of scal ! 0) (sample_count ns),
                 Calloc (dims_of scal ! 0 * dims_of scal ! 0),
                 Calloc (dims_of scal ! 0 * dims_of scal ! 0)]"
    using rChol_oob_run[OF oob(1) assms oob(2), of P ns nu] by blast
  obtain w3' where i: "rInvCholWishart P ns nu scal w = (Inl OutOfBounds, w3')"
    "added w w3' = [Alloc3DArray (dims_of scal ! 0) (dims_of scal ! 0) (sample_count ns),
                 Calloc (dims_of scal ! 0 * dims_of scal ! 0),
                 Calloc (dims_of scal ! 0 * dims_of scal ! 0)]"
    using rInv_oob_run[OF oob(1) assms oob(2), of P ns nu] by blast
  show ?thesis by (simp add: c i rng_view_def)
next
  case npd
  then show ?thesis
    by (simp add: rChol_npd_run rInv_npd_run added_setup_world rng_view_setup)
next
  case guard
  then show ?thesis
    by (simp add: rChol_guard_run rInv_guard_run added_log_setup_world rng_view_append
        rng_view_setup) (simp add: rng_view_def)
next
  case ok
  have g: "rng_view [GetRNGstate] = [GetRNGstate]"
    and p: "rng_view [PutRNGstate, Free a, Free b] = [PutRNGstate]" for a b
    by (simp_all add: rng_view_def)
  have x: "rng_view [Dtrmm a b] = []" "rng_view [Dtrmm a b, Dtrtri b] = []" for a b
    by (simp_all add: rng_view_def)
  show ?thesis
    by (simp add: rChol_run[OF ok] rInv_run[OF ok] added_def rng_view_append rng_view_setup
        rng_view_samples[OF x(1)] rng_view_samples[OF x(2)] g p rng_view_Cons rng_view_Nil)
qed


theorem rng_bracket_closed_only_on_return_witness:
  "payload (real_matrix 2 2) < brk (world_of [1, 0, 0, 1] [4, 9, 1 / 2, 1, 16, 2])
   \<and> rng_view (added (world_of [1, 0, 0, 1] [4, 9, 1 / 2, 1, 16, 2])
         (snd (rCholWishart ref_prims 2 5 (real_matrix 2 2)
                 (world_of [1, 0, 0, 1] [4, 9, 1 / 2, 1, 16, 2]))))
       = [GetRNGstate, Rchisq 5, Rchisq 4, Norm_rand, Rchisq 5, Rchisq 4, Norm_rand, PutRNGstate]
   \<and> rng_view (added (world_of [1, 0, 0, 1] [4, 9, 1 / 2, 1, 16, 2])
         (snd (rInvCholWishart ref_prims 2 5 (real_matrix 2 2)
                 (world_of [1, 0, 0, 1] [4, 9, 1 / 2, 1, 16, 2]))))
       = [GetRNGstate, Rchisq 5, Rchisq 4, Norm_rand, Rchisq 5, Rchisq 4, Norm_rand, PutRNGstate]"
proof -
  let ?W = "world_of [1, 0, 0, 1] [4, 9, 1 / 2, 1, 16, 2]"
  note v2 = ref_valid_2(2)[of "[4, 9, 1 / 2, 1, 16, 2]"]
  note v3 = ref_valid_2(3)[of "[4, 9, 1 / 2, 1, 16, 2]"]
  have h: "payload (real_matrix 2 2) < brk ?W"
    by (simp add: real_matrix_def world_of_def)
  have c: "\<exists>a. fst (rCholWishart ref_prims 2 5 (real_matrix 2 2) ?W) = Inr a"
    by (simp add: rChol_run[OF ref_valid_2(1) v2 v3 ref_valid_2_more(1,3)])
  have i: "\<exists>a. fst (rInvCholWishart ref_prims 2 5 (real_matrix 2 2) ?W) = Inr a"
    by (simp add: rInv_run[OF ref_valid_2(1) v2 v3 ref_valid_2_more(1,3)])
  have d: "draws_trace 5 2 = [Rchisq 5, Rchisq 4, Norm_rand]"
    by (simp add: draws_trace_def upt_small)
  have r: "replicate 2 x = [x, x]" for x :: "event list"
    by (simp add: numeral_2_eq_2)
  show ?thesis
    using rng_bracket_closed_only_on_return[OF h, of ref_prims 2 5] h c i
    by (auto simp add: ref_valid_2(4) sample_count_small d r)
qed

theorem rng_bracket_left_open_on_guard_failure:
  "fst (rInvCholWishart ref_prims 3 (3 / 2) (real_matrix 2 2) (world_of [1, 0, 0, 1] [4, 9, 1 / 2]))
     = Inl InvalidDegreesOfFreedom
   \<and> added (world_of [1, 0, 0, 1] [4, 9, 1 / 2])
        (snd (rInvCholWishart ref_prims 3 (3 / 2) (real_matrix 2 2)
                (world_of [1, 0, 0, 1] [4, 9, 1 / 2])))
       = [Alloc3DArray 2 2 3, Calloc 4, Calloc 4, Memcpy 3 0 4, Dpotrf 3, GetRNGstate]
   \<and> fst (rCholWishart ref_prims 3 5 (real_matrix 2 3) (world_of [1, 2, 3, 4, 5, 6] [4, 9, 1 / 2]))
     = Inl InvalidShape
   \<and> added (world_of [1, 2, 3, 4, 5, 6] [4, 9, 1 / 2])
        (snd (rCholWishart ref_prims 3 5 (real_matrix 2 3)
                (world_of [1, 2, 3, 4, 5, 6] [4, 9, 1 / 2])))
       = []"
proof -
  note v2 = ref_valid_2(2)[of "[4, 9, 1 / 2]"]
  note v3 = ref_valid_2(3)[of "[4, 9, 1 / 2]"]
  have g: "(3 / 2 :: real) < real (dims_of (real_matrix 2 2) ! 0)"
    by (simp add: ref_valid_2(4))
  have e: "payload (real_matrix 2 2) = 0" by (simp add: real_matrix_def)
  show ?thesis
    by (simp add: rChol_shape_run[OF has_dim_2x3 not_square_2x3]
        rInv_guard_run[OF ref_valid_2(1) v2 v3 ref_valid_2_more(1) g] added_log_setup_world
        setup_events_def ref_valid_2(4) world_of_sel sample_count_small e added_same)
qed

section \<open>The empty scale matrix\<close>

lemma empty_matrix_square:
  assumes "isReal scal" "dim_attr scal = Some [0, 0]"
  shows "square_real scal" "dims_of scal ! 0 = 0"
  using assms by (simp_all add: square_real_def isMatrix_def isVector_def isReal_def dims_of_def)

text \<open>
  Claim C10, as the code has it. A real scale argument of extents \<open>0\<close> and \<open>0\<close> passes
  the shape test; the output array, \<^verbatim>\<open>tmp\<close> and \<^verbatim>\<open>scCp\<close> are allocated, nothing is
  copied and \<^verbatim>\<open>dpotrf\<close> is called on the empty buffer with the order \<open>0\<close> and the
  leading dimension \<open>0\<close>. The routine refuses the leading dimension and the call fails
  there with \<open>LapackArgument\<close>, whose message is
  \<^verbatim>\<open>BLAS/LAPACK routine 'DPOTRF' gave error code -4\<close>, whatever \<open>nu\<close> and the sample
  count are: the stream is not acquired, the guard of \<open>std_rWishart_factor\<close> is not
  reached, no variate is drawn and the call does not return.
\<close>

theorem empty_matrix_refused_by_factorisation:
  assumes "isReal scal" "dim_attr scal = Some [0, 0]" "live_scale w scal"
  shows "fst (rCholWishart P ns nu scal w) = Inl LapackArgument
       \<and> fst (rInvCholWishart P ns nu scal w) = Inl LapackArgument
       \<and> added w (snd (rCholWishart P ns nu scal w))
           = [Alloc3DArray 0 0 (sample_count ns), Calloc 0, Calloc 0,
              Memcpy (Suc (Suc (brk w))) (payload scal) 0, Dpotrf (Suc (Suc (brk w)))]
       \<and> added w (snd (rInvCholWishart P ns nu scal w))
           = [Alloc3DArray 0 0 (sample_count ns), Calloc 0, Calloc 0,
              Memcpy (Suc (Suc (brk w))) (payload scal) 0, Dpotrf (Suc (Suc (brk w)))]
       \<and> rng (snd (rCholWishart P ns nu scal w)) = rng w
       \<and> rng (snd (rInvCholWishart P ns nu scal w)) = rng w
       \<and> message LapackArgument
           = ''BLAS/LAPACK routine '' @ CHR 0x27 # ''DPOTRF'' @ CHR 0x27 #
             '' gave error code -4''"
proof -
  note s = empty_matrix_square(1)[OF assms(1,2)]
  note d = empty_matrix_square(2)[OF assms(1,2)]
  show ?thesis
    by (simp add: rChol_refused_run[OF s assms(3) d] rInv_refused_run[OF s assms(3) d]
        added_refused_world setup_events_def d refused_world_rng)
qed

lemma ref_valid_0:
  "isReal (real_matrix 0 0)" "dim_attr (real_matrix 0 0) = Some [0, 0]"
  "live_scale (world_of [] tape) (real_matrix 0 0)"
  "payload (real_matrix 0 0) = 0"
  by (simp_all add: isReal_def real_matrix_def live_scale_def world_of_def dims_of_def)

theorem empty_matrix_refused_by_factorisation_witness:
  "isReal (real_matrix 0 0) \<and> dim_attr (real_matrix 0 0) = Some [0, 0]
   \<and> live_scale (world_of [] [4, 9]) (real_matrix 0 0)
   \<and> fst (rCholWishart ref_prims 1 3 (real_matrix 0 0) (world_of [] [4, 9]))
       = Inl LapackArgument
   \<and> fst (rInvCholWishart ref_prims 1 3 (real_matrix 0 0) (world_of [] [4, 9]))
       = Inl LapackArgument
   \<and> added (world_of [] [4, 9])
        (snd (rCholWishart ref_prims 1 3 (real_matrix 0 0) (world_of [] [4, 9])))
       = [Alloc3DArray 0 0 1, Calloc 0, Calloc 0, Memcpy 3 0 0, Dpotrf 3]
   \<and> rng (snd (rCholWishart ref_prims 1 3 (real_matrix 0 0) (world_of [] [4, 9]))) = [4, 9]"
  using empty_matrix_refused_by_factorisation[OF ref_valid_0(1) ref_valid_0(2)
      ref_valid_0(3)[of "[4, 9]"], of ref_prims 1 3]
    ref_valid_0(1) ref_valid_0(2) ref_valid_0(3)[of "[4, 9]"]
  by (simp add: ref_valid_0(4) world_of_sel sample_count_small)

text \<open>
  The claim as the specification words it fails on the empty matrix: the call does not
  fail with \<open>InvalidDegreesOfFreedom\<close>, and \<open>GetRNGstate\<close> is not among its events.
\<close>

theorem empty_matrix_never_reaches_the_guard:
  "fst (rCholWishart ref_prims 1 3 (real_matrix 0 0) (world_of [] [4, 9]))
     = Inl LapackArgument
   \<and> fst (rInvCholWishart ref_prims 1 3 (real_matrix 0 0) (world_of [] [4, 9]))
     = Inl LapackArgument
   \<and> LapackArgument \<noteq> InvalidDegreesOfFreedom
   \<and> GetRNGstate \<notin> set (added (world_of [] [4, 9])
        (snd (rCholWishart ref_prims 1 3 (real_matrix 0 0) (world_of [] [4, 9]))))
   \<and> GetRNGstate \<notin> set (added (world_of [] [4, 9])
        (snd (rInvCholWishart ref_prims 1 3 (real_matrix 0 0) (world_of [] [4, 9]))))
   \<and> message LapackArgument \<noteq> ''inconsistent degrees of freedom and dimension''"
proof -
  note s = empty_matrix_square(1)[OF ref_valid_0(1) ref_valid_0(2)]
  note d = empty_matrix_square(2)[OF ref_valid_0(1) ref_valid_0(2)]
  show ?thesis
    by (simp add: rChol_refused_run[OF s ref_valid_0(3) d] rInv_refused_run[OF s ref_valid_0(3) d]
        added_refused_world setup_events_def)
qed

end
